theory Spec2Isabelle
  imports Main "HOL-Library.Word" "HOL-Library.Multiset"
begin

section \<open>ChainEscapeLite: the contract's data\<close>

text \<open>
  A shallow embedding of \<^verbatim>\<open>contracts/ChainEscapeLite.sol\<close> (Solidity 0.8).
  \<^item> \<^verbatim>\<open>uint256\<close> and \<^verbatim>\<open>bytes32\<close> are 256-bit words, \<^verbatim>\<open>address\<close> is a 160-bit word.
  \<^item> Solidity 0.8 arithmetic is checked: an overflowing \<^verbatim>\<open>+\<close> raises \<^verbatim>\<open>Panic(0x11)\<close>,
    an out-of-range array index raises \<^verbatim>\<open>Panic(0x32)\<close>.
  \<^item> A function of the contract is a function from the storage before the call to either
    an error (the call reverts and the storage stays as it was) or the storage after it.
  \<^item> Events are not modelled.
\<close>

type_synonym address = "160 word"
type_synonym uint256 = "256 word"
type_synonym bytes32 = "256 word"
type_synonym bytes = "8 word list"

datatype error = Revert string | Panic nat

datatype GameState = NOT_STARTED | ACTIVE | ENDED

record Puzzle =
  puzzleHash :: bytes32
  basePoints :: uint256
  active :: bool

record PlayerStats =
  score :: uint256
  puzzleIndex :: uint256
  claimedNFT :: bool
  isActivePlayer :: bool
  lastSolveTime :: uint256

text \<open>
  The storage of the contract. \<open>owner\<close> is the field of the inherited \<^verbatim>\<open>Ownable\<close>;
  \<open>erc721_owners\<close> and \<open>erc721_balances\<close> are the two mappings of the inherited
  \<^verbatim>\<open>ERC721\<close> that minting writes (a token of owner 0 does not exist).
\<close>

record contract =
  owner :: address
  erc721_owners :: "uint256 \<Rightarrow> address"
  erc721_balances :: "address \<Rightarrow> uint256"
  avsAddress :: address
  avsSigner :: address
  puzzleCreators :: "address \<Rightarrow> bool"
  gameState :: GameState
  gameStartTimestamp :: uint256
  gameDuration :: uint256
  puzzleCount :: uint256
  puzzles :: "uint256 \<Rightarrow> Puzzle"
  allPlayers :: "address list"
  playerStats :: "address \<Rightarrow> PlayerStats"
  tokenIds :: uint256
  baseTokenURI :: string
  finalRank :: "address \<Rightarrow> uint256"

text \<open>What a call sees of its transaction and block.\<close>

record env =
  msg_sender :: address
  block_timestamp :: uint256
  this_address :: address

text \<open>
  The library and precompile functions the contract calls and whose code is not part of
  the repository, taken as parameters:
  \<^item> \<open>keccak256_packed\<close> is \<^verbatim>\<open>keccak256(abi.encodePacked(address, address, uint256, bool, uint256))\<close>;
  \<^item> \<open>toEthSignedMessageHash\<close> and \<open>tryRecover\<close> are OpenZeppelin's \<^verbatim>\<open>ECDSA\<close>
    functions (\<open>tryRecover\<close> returns the signer or one of the library's errors).
\<close>

datatype RecoverError =
  InvalidSignature | InvalidSignatureLength | InvalidSignatureS | InvalidSignatureV

record externals =
  keccak256_packed :: "address \<Rightarrow> address \<Rightarrow> uint256 \<Rightarrow> bool \<Rightarrow> uint256 \<Rightarrow> bytes32"
  toEthSignedMessageHash :: "bytes32 \<Rightarrow> bytes32"
  tryRecover :: "bytes32 \<Rightarrow> bytes \<Rightarrow> RecoverError + address"

section \<open>Checked arithmetic and sequencing\<close>

definition checked_add :: "uint256 \<Rightarrow> uint256 \<Rightarrow> error + uint256" where
  "checked_add a b = (if unat a + unat b < 2 ^ 256 then Inr (a + b) else Inl (Panic 0x11))"

definition bindE :: "error + 'a \<Rightarrow> ('a \<Rightarrow> error + 'b) \<Rightarrow> error + 'b" where
  "bindE m f = (case m of Inl err \<Rightarrow> Inl err | Inr v \<Rightarrow> f v)"

definition require :: "bool \<Rightarrow> string \<Rightarrow> error + unit" where
  "require c msg = (if c then Inr () else Inl (Revert msg))"

text \<open>
  OpenZeppelin's \<^verbatim>\<open>ECDSA.recover\<close>: \<^verbatim>\<open>tryRecover\<close>, reverting with the library's
  message on an error.
\<close>

fun throwError :: "RecoverError \<Rightarrow> error" where
  "throwError InvalidSignature = Revert ''ECDSA: invalid signature''"
| "throwError InvalidSignatureLength = Revert ''ECDSA: invalid signature length''"
| "throwError InvalidSignatureS = Revert ''ECDSA: invalid signature 's' value''"
| "throwError InvalidSignatureV = Revert ''ECDSA: invalid signature 'v' value''"

definition recover :: "externals \<Rightarrow> bytes32 \<Rightarrow> bytes \<Rightarrow> error + address" where
  "recover x h signature =
     (case tryRecover x h signature of Inl err \<Rightarrow> Inl (throwError err) | Inr a \<Rightarrow> Inr a)"

section \<open>Modifiers\<close>

definition onlyWhenActive :: "env \<Rightarrow> contract \<Rightarrow> error + unit" where
  "onlyWhenActive e s =
     bindE (require (gameState s = ACTIVE) ''Game is not active'') (\<lambda>_.
     bindE (checked_add (gameStartTimestamp s) (gameDuration s)) (\<lambda>deadline.
     require (block_timestamp e \<le> deadline) ''Time is up''))"

definition onlyPuzzleCreator :: "env \<Rightarrow> contract \<Rightarrow> error + unit" where
  "onlyPuzzleCreator e s =
     require (puzzleCreators s (msg_sender e) \<or> msg_sender e = owner s)
       ''Not a puzzle creator nor owner''"

definition onlyOwner :: "env \<Rightarrow> contract \<Rightarrow> error + unit" where
  "onlyOwner e s = require (owner s = msg_sender e) ''Ownable: caller is not the owner''"

text \<open>
  The guard of \<^verbatim>\<open>finalizeRanks\<close> and \<^verbatim>\<open>claimNFT\<close>:
  \<^verbatim>\<open>gameState == ENDED || block.timestamp > gameStartTimestamp + gameDuration\<close>.
  \<^verbatim>\<open>||\<close> does not evaluate its right operand (and its checked sum) when the left one holds.
\<close>

definition requireGameEnded :: "env \<Rightarrow> contract \<Rightarrow> error + unit" where
  "requireGameEnded e s =
     (if gameState s = ENDED then Inr ()
      else bindE (checked_add (gameStartTimestamp s) (gameDuration s)) (\<lambda>deadline.
           require (block_timestamp e > deadline) ''Game not ended yet''))"

section \<open>Constructor and admin functions\<close>

definition emptyPuzzle :: Puzzle where
  "emptyPuzzle = \<lparr>puzzleHash = 0, basePoints = 0, active = False\<rparr>"

definition emptyStats :: PlayerStats where
  "emptyStats = \<lparr>score = 0, puzzleIndex = 0, claimedNFT = False, isActivePlayer = False,
     lastSolveTime = 0\<rparr>"

text \<open>
  The constructor makes the deployer the owner, stores the base URI and leaves every other
  field at its zero value (the token's name and symbol are not modelled).
\<close>

definition constructor :: "env \<Rightarrow> string \<Rightarrow> contract" where
  "constructor e uri =
     \<lparr>owner = msg_sender e,
      erc721_owners = (\<lambda>_. 0),
      erc721_balances = (\<lambda>_. 0),
      avsAddress = 0,
      avsSigner = 0,
      puzzleCreators = (\<lambda>_. False),
      gameState = NOT_STARTED,
      gameStartTimestamp = 0,
      gameDuration = 0,
      puzzleCount = 0,
      puzzles = (\<lambda>_. emptyPuzzle),
      allPlayers = [],
      playerStats = (\<lambda>_. emptyStats),
      tokenIds = 0,
      baseTokenURI = uri,
      finalRank = (\<lambda>_. 0)\<rparr>"

definition transferOwnership :: "env \<Rightarrow> address \<Rightarrow> contract \<Rightarrow> error + contract" where
  "transferOwnership e newOwner s =
     bindE (onlyOwner e s) (\<lambda>_.
     bindE (require (newOwner \<noteq> 0) ''Ownable: new owner is the zero address'') (\<lambda>_.
     Inr (s\<lparr>owner := newOwner\<rparr>)))"

definition renounceOwnership :: "env \<Rightarrow> contract \<Rightarrow> error + contract" where
  "renounceOwnership e s = bindE (onlyOwner e s) (\<lambda>_. Inr (s\<lparr>owner := 0\<rparr>))"

definition setPuzzleCreator :: "env \<Rightarrow> address \<Rightarrow> bool \<Rightarrow> contract \<Rightarrow> error + contract" where
  "setPuzzleCreator e creator isCreator s =
     bindE (onlyOwner e s) (\<lambda>_.
     Inr (s\<lparr>puzzleCreators := (puzzleCreators s)(creator := isCreator)\<rparr>))"

definition setAvsAddress :: "env \<Rightarrow> address \<Rightarrow> contract \<Rightarrow> error + contract" where
  "setAvsAddress e a s = bindE (onlyOwner e s) (\<lambda>_. Inr (s\<lparr>avsAddress := a\<rparr>))"

definition setAvsSigner :: "env \<Rightarrow> address \<Rightarrow> contract \<Rightarrow> error + contract" where
  "setAvsSigner e a s = bindE (onlyOwner e s) (\<lambda>_. Inr (s\<lparr>avsSigner := a\<rparr>))"

definition startGame :: "env \<Rightarrow> uint256 \<Rightarrow> contract \<Rightarrow> error + contract" where
  "startGame e durationInSeconds s =
     bindE (onlyOwner e s) (\<lambda>_.
     if gameState s = ACTIVE then Inl (Revert ''Game is already active'')
     else if gameState s = ENDED then Inl (Revert ''Game has already ended'')
     else Inr (s\<lparr>gameDuration := durationInSeconds,
                 gameStartTimestamp := block_timestamp e,
                 gameState := ACTIVE\<rparr>))"

definition endGame :: "env \<Rightarrow> contract \<Rightarrow> error + contract" where
  "endGame e s =
     bindE (onlyOwner e s) (\<lambda>_.
     bindE (require (gameState s = ACTIVE) ''Game not active'') (\<lambda>_.
     Inr (s\<lparr>gameState := ENDED\<rparr>)))"

section \<open>Puzzle setup\<close>

definition setPuzzleHash ::
  "env \<Rightarrow> uint256 \<Rightarrow> bytes32 \<Rightarrow> uint256 \<Rightarrow> contract \<Rightarrow> error + contract" where
  "setPuzzleHash e puzzleId h points s =
     bindE (onlyPuzzleCreator e s) (\<lambda>_.
     let s1 = s\<lparr>puzzles := (puzzles s)(puzzleId :=
                 \<lparr>puzzleHash = h, basePoints = points, active = True\<rparr>)\<rparr>
     in if puzzleId \<ge> puzzleCount s1
        then bindE (checked_add puzzleId 1) (\<lambda>n. Inr (s1\<lparr>puzzleCount := n\<rparr>))
        else Inr s1)"

section \<open>Submitting a result\<close>

definition submitResult ::
  "externals \<Rightarrow> env \<Rightarrow> address \<Rightarrow> uint256 \<Rightarrow> bool \<Rightarrow> uint256 \<Rightarrow> bytes \<Rightarrow> contract
     \<Rightarrow> error + contract" where
  "submitResult x e player puzzleId correct timeRemaining signature s =
     bindE (onlyWhenActive e s) (\<lambda>_.
     bindE (require (msg_sender e = avsAddress s) ''Caller is not AVS address'') (\<lambda>_.
     let messageHash =
           keccak256_packed x (this_address e) player puzzleId correct timeRemaining;
         ethSignedHash = toEthSignedMessageHash x messageHash
     in
     bindE (recover x ethSignedHash signature) (\<lambda>recovered.
     bindE (require (recovered = avsSigner s) ''Invalid AVS signature'') (\<lambda>_.
     let s1 = (if \<not> isActivePlayer (playerStats s player)
               then s\<lparr>playerStats := (playerStats s)(player :=
                          (playerStats s player)\<lparr>isActivePlayer := True\<rparr>),
                        allPlayers := allPlayers s @ [player]\<rparr>
               else s);
         stats = playerStats s1 player
     in
     bindE (require (puzzleId = puzzleIndex stats) ''Wrong puzzle index'') (\<lambda>_.
     let puzzle = puzzles s1 puzzleId in
     bindE (require (active puzzle) ''Puzzle not active'') (\<lambda>_.
     if correct then
       bindE (checked_add (basePoints puzzle) (timeRemaining div 60)) (\<lambda>pointsAwarded.
       bindE (checked_add (score stats) pointsAwarded) (\<lambda>newScore.
       bindE (checked_add (puzzleIndex stats) 1) (\<lambda>newIndex.
       Inr (s1\<lparr>playerStats := (playerStats s1)(player :=
              stats\<lparr>score := newScore, puzzleIndex := newIndex,
                     lastSolveTime := block_timestamp e\<rparr>)\<rparr>))))
     else
       let penalty = 2 in
       Inr (s1\<lparr>playerStats := (playerStats s1)(player :=
              stats\<lparr>score := (if score stats \<ge> penalty then score stats - penalty else 0)\<rparr>)\<rparr>)))))))"

section \<open>Tie-breaking and final ranks\<close>

definition isBetter :: "contract \<Rightarrow> address \<Rightarrow> address \<Rightarrow> bool" where
  "isBetter s a b =
     (if score (playerStats s a) > score (playerStats s b) then True
      else if score (playerStats s a) < score (playerStats s b) then False
      else if puzzleIndex (playerStats s a) > puzzleIndex (playerStats s b) then True
      else if puzzleIndex (playerStats s a) < puzzleIndex (playerStats s b) then False
      else if lastSolveTime (playerStats s a) < lastSolveTime (playerStats s b) then True
      else if lastSolveTime (playerStats s a) > lastSolveTime (playerStats s b) then False
      else False)"

definition areTied :: "contract \<Rightarrow> address \<Rightarrow> address \<Rightarrow> bool" where
  "areTied s a b =
     (score (playerStats s a) = score (playerStats s b) \<and>
      puzzleIndex (playerStats s a) = puzzleIndex (playerStats s b) \<and>
      lastSolveTime (playerStats s a) = lastSolveTime (playerStats s b))"

text \<open>
  The inner loop of the exchange sort, \<^verbatim>\<open>for (j = i + 1; j < sortedPlayers.length; j++)\<close>,
  started at \<open>j\<close>: it swaps positions \<open>i\<close> and \<open>j\<close> when the player at \<open>j\<close> is better.
\<close>

function sortInner :: "contract \<Rightarrow> nat \<Rightarrow> nat \<Rightarrow> address list \<Rightarrow> address list" where
  "sortInner s i j sortedPlayers =
     (if j < length sortedPlayers
      then sortInner s i (j + 1)
             (if isBetter s (sortedPlayers ! j) (sortedPlayers ! i)
              then (let temp = sortedPlayers ! i
                    in (sortedPlayers[i := sortedPlayers ! j])[j := temp])
              else sortedPlayers)
      else sortedPlayers)"
  by pat_completeness auto
termination
  by (relation "measure (\<lambda>(s, i, j, sp). length sp - j)") (auto simp: Let_def)

declare sortInner.simps [simp del]

lemma length_sortInner: "length (sortInner s i j sp) = length sp"
proof (induction s i j sp rule: sortInner.induct)
  case (1 s i j sp)
  show ?case
  proof (cases "j < length sp")
    case True
    with 1 show ?thesis
      by (subst sortInner.simps) (simp add: Let_def)
  next
    case False
    then show ?thesis
      by (subst sortInner.simps) simp
  qed
qed

text \<open>The outer loop, \<^verbatim>\<open>for (i = 0; i < sortedPlayers.length; i++)\<close>, started at \<open>i\<close>.\<close>

function sortOuter :: "contract \<Rightarrow> nat \<Rightarrow> address list \<Rightarrow> address list" where
  "sortOuter s i sortedPlayers =
     (if i < length sortedPlayers
      then sortOuter s (i + 1) (sortInner s i (i + 1) sortedPlayers)
      else sortedPlayers)"
  by pat_completeness auto
termination
  by (relation "measure (\<lambda>(s, i, sp). length sp - i)") (auto simp: length_sortInner)

declare sortOuter.simps [simp del]

text \<open>
  The rank loop, \<^verbatim>\<open>for (k = 1; k < sortedPlayers.length; k++)\<close>, started at \<open>k\<close>, on the
  mapping \<^verbatim>\<open>finalRank\<close>.
\<close>

function assignRanks ::
  "contract \<Rightarrow> address list \<Rightarrow> nat \<Rightarrow> (address \<Rightarrow> uint256) \<Rightarrow> (address \<Rightarrow> uint256)" where
  "assignRanks s sortedPlayers k rank =
     (if k < length sortedPlayers
      then assignRanks s sortedPlayers (k + 1)
             (if areTied s (sortedPlayers ! k) (sortedPlayers ! (k - 1))
              then rank(sortedPlayers ! k := rank (sortedPlayers ! (k - 1)))
              else rank(sortedPlayers ! k := of_nat (k + 1)))
      else rank)"
  by pat_completeness auto
termination
  by (relation "measure (\<lambda>(s, sp, k, r). length sp - k)") auto

declare assignRanks.simps [simp del]

text \<open>
  \<^verbatim>\<open>finalizeRanks\<close>: the copy loop fills \<^verbatim>\<open>sortedPlayers\<close> with \<^verbatim>\<open>allPlayers[i]\<close> for
  every index, the two loops sort it, and the ranks are written from position 0 on;
  \<^verbatim>\<open>sortedPlayers[0]\<close> is out of range when the array is empty.
\<close>

definition finalizeRanks :: "env \<Rightarrow> contract \<Rightarrow> error + contract" where
  "finalizeRanks e s =
     bindE (requireGameEnded e s) (\<lambda>_.
     let copied = map (\<lambda>i. allPlayers s ! i) [0..<length (allPlayers s)];
         sortedPlayers = sortOuter s 0 copied
     in if \<not> 0 < length sortedPlayers then Inl (Panic 0x32)
        else Inr (s\<lparr>finalRank :=
               assignRanks s sortedPlayers 1 ((finalRank s)(sortedPlayers ! 0 := 1))\<rparr>))"

section \<open>Claiming the NFT\<close>

text \<open>
  OpenZeppelin's \<^verbatim>\<open>ERC721._safeMint\<close>: the recipient is not the zero address, the token
  does not exist yet, the recipient's balance and the token's owner are written, and then
  \<^verbatim>\<open>_checkOnERC721Received\<close> calls the recipient. That call is an external call made
  after the writes: \<open>checkReceived\<close> is what it does to the storage it starts on, or the
  error it reverts with.
\<close>

definition safeMint ::
  "(contract \<Rightarrow> error + contract) \<Rightarrow> address \<Rightarrow> uint256 \<Rightarrow> contract \<Rightarrow> error + contract" where
  "safeMint checkReceived to tokenId s =
     bindE (require (to \<noteq> 0) ''ERC721: mint to the zero address'') (\<lambda>_.
     bindE (require (erc721_owners s tokenId = 0) ''ERC721: token already minted'') (\<lambda>_.
     let s1 = s\<lparr>erc721_balances := (erc721_balances s)(to := erc721_balances s to + 1),
                erc721_owners := (erc721_owners s)(tokenId := to)\<rparr>
     in checkReceived s1))"

definition claimNFT ::
  "(contract \<Rightarrow> error + contract) \<Rightarrow> env \<Rightarrow> contract \<Rightarrow> error + contract" where
  "claimNFT checkReceived e s =
     bindE (requireGameEnded e s) (\<lambda>_.
     bindE (require (finalRank s (msg_sender e) > 0)
              ''Rank not assigned yet. finalizeRanks first.'') (\<lambda>_.
     bindE (require (\<not> claimedNFT (playerStats s (msg_sender e))) ''Already claimed NFT'') (\<lambda>_.
     let s1 = s\<lparr>playerStats := (playerStats s)(msg_sender e :=
                  (playerStats s (msg_sender e))\<lparr>claimedNFT := True\<rparr>)\<rparr>
     in
     bindE (checked_add (tokenIds s1) 1) (\<lambda>newTokenId.
     safeMint checkReceived (msg_sender e) newTokenId (s1\<lparr>tokenIds := newTokenId\<rparr>)))))"

section \<open>Inherited token transfers\<close>

text \<open>
  The contract inherits the transfer entry points of OpenZeppelin's \<^verbatim>\<open>ERC721\<close>.
  \<^verbatim>\<open>transferFrom\<close> and \<^verbatim>\<open>safeTransferFrom\<close> move an existing token from its owner to
  a non-zero address. Their check of the caller (owner, approved or operator) and the
  receiver check of the safe variant are left out, so every transfer the library allows
  is a transfer here; what the receiver of a safe transfer calls from its callback are
  further calls in the same block, after the transfer. \<^verbatim>\<open>approve\<close> and
  \<^verbatim>\<open>setApprovalForAll\<close> write approval mappings only, which no function of this
  contract reads.
\<close>

definition transferFrom :: "address \<Rightarrow> address \<Rightarrow> uint256 \<Rightarrow> contract \<Rightarrow> error + contract" where
  "transferFrom holder to tokenId s =
     bindE (require (erc721_owners s tokenId \<noteq> 0) ''ERC721: invalid token ID'') (\<lambda>_.
     bindE (require (erc721_owners s tokenId = holder)
              ''ERC721: transfer from incorrect owner'') (\<lambda>_.
     bindE (require (to \<noteq> 0) ''ERC721: transfer to the zero address'') (\<lambda>_.
     let b1 = (erc721_balances s)(holder := erc721_balances s holder - 1);
         b2 = b1(to := b1 to + 1)
     in Inr (s\<lparr>erc721_balances := b2,
                 erc721_owners := (erc721_owners s)(tokenId := to)\<rparr>))))"

section \<open>Transactions\<close>

text \<open>
  The external functions of the contract that write its storage. A transaction runs one
  of them; when the function reverts, the storage is what it was before the call.

  A claim comes with what the claimant does when \<^verbatim>\<open>_safeMint\<close> calls its
  \<^verbatim>\<open>onERC721Received\<close>: the calls made back into the contract before it returns, each
  with the caller the contract sees (a nested call that reverts is caught by its caller and
  changes nothing), and how the callback ends. It returns the expected selector
  (\<open>Accepted\<close>), returns another value or reverts without a reason (\<open>Refused\<close>), or
  reverts with a reason, which the library passes on (\<open>RevertedWith\<close>). An externally
  owned account is not called: it is \<open>Receiver [] Accepted\<close>.
\<close>

datatype callback_end = Accepted | Refused | RevertedWith error

datatype call =
    TransferOwnership address
  | RenounceOwnership
  | SetPuzzleCreator address bool
  | SetAvsAddress address
  | SetAvsSigner address
  | StartGame uint256
  | EndGame
  | SetPuzzleHash uint256 bytes32 uint256
  | SubmitResult address uint256 bool uint256 bytes
  | FinalizeRanks
  | ClaimNFT receiver
  | TransferFrom address address uint256
and receiver = Receiver "(address \<times> call) list" callback_end

text \<open>
  \<open>dispatch\<close> runs a call, \<open>checkOnERC721Received\<close> the claimant's callback on the
  storage \<^verbatim>\<open>_safeMint\<close> has written, and \<open>reenter\<close> the calls the callback makes, in the
  same block.
\<close>

fun dispatch :: "externals \<Rightarrow> env \<Rightarrow> call \<Rightarrow> contract \<Rightarrow> error + contract"
  and checkOnERC721Received :: "externals \<Rightarrow> env \<Rightarrow> receiver \<Rightarrow> contract \<Rightarrow> error + contract"
  and reenter :: "externals \<Rightarrow> env \<Rightarrow> (address \<times> call) list \<Rightarrow> contract \<Rightarrow> contract"
where
  "dispatch x e (TransferOwnership a) s = transferOwnership e a s"
| "dispatch x e RenounceOwnership s = renounceOwnership e s"
| "dispatch x e (SetPuzzleCreator a b) s = setPuzzleCreator e a b s"
| "dispatch x e (SetAvsAddress a) s = setAvsAddress e a s"
| "dispatch x e (SetAvsSigner a) s = setAvsSigner e a s"
| "dispatch x e (StartGame d) s = startGame e d s"
| "dispatch x e EndGame s = endGame e s"
| "dispatch x e (SetPuzzleHash i h p) s = setPuzzleHash e i h p s"
| "dispatch x e (SubmitResult p i c t sg) s = submitResult x e p i c t sg s"
| "dispatch x e FinalizeRanks s = finalizeRanks e s"
| "dispatch x e (ClaimNFT r) s = claimNFT (\<lambda>s1. checkOnERC721Received x e r s1) e s"
| "dispatch x e (TransferFrom a b i) s = transferFrom a b i s"
| "checkOnERC721Received x e (Receiver cs ending) s =
     (let s' = reenter x e cs s
      in case ending of
           Accepted \<Rightarrow> Inr s'
         | Refused \<Rightarrow> Inl (Revert ''ERC721: transfer to non ERC721Receiver implementer'')
         | RevertedWith err \<Rightarrow> Inl err)"
| "reenter x e [] s = s"
| "reenter x e ((a, c) # cs) s =
     reenter x e cs
       (case dispatch x (e\<lparr>msg_sender := a\<rparr>) c s of Inl err \<Rightarrow> s | Inr s' \<Rightarrow> s')"

definition transact :: "externals \<Rightarrow> env \<Rightarrow> call \<Rightarrow> contract \<Rightarrow> contract" where
  "transact x e c s = (case dispatch x e c s of Inl err \<Rightarrow> s | Inr s' \<Rightarrow> s')"

text \<open>A history of transactions, applied in ledger order.\<close>

fun run :: "externals \<Rightarrow> (env \<times> call) list \<Rightarrow> contract \<Rightarrow> contract" where
  "run x [] s = s"
| "run x ((e, c) # cs) s = run x cs (transact x e c s)"

text \<open>Block timestamps never decrease along a history that starts at time \<open>t\<close>.\<close>

fun chronological :: "uint256 \<Rightarrow> (env \<times> call) list \<Rightarrow> bool" where
  "chronological t [] = True"
| "chronological t ((e, c) # cs) = (t \<le> block_timestamp e \<and> chronological (block_timestamp e) cs)"

section \<open>Names for parts of the code\<close>

text \<open>
  The storage after the block \<^verbatim>\<open>if (!stats.isActivePlayer) { ... }\<close> of
  \<^verbatim>\<open>submitResult\<close>, named for the statements below.
\<close>

definition markActive :: "address \<Rightarrow> contract \<Rightarrow> contract" where
  "markActive player s = (if \<not> isActivePlayer (playerStats s player)
               then s\<lparr>playerStats := (playerStats s)(player :=
                          (playerStats s player)\<lparr>isActivePlayer := True\<rparr>),
                        allPlayers := allPlayers s @ [player]\<rparr>
               else s)"

text \<open>
  The address \<^verbatim>\<open>submitResult\<close> recovers from the signature: the signer, under the
  Ethereum signed-message scheme, of the hash of the contract's address, the player, the
  puzzle, the verdict and the time remaining.
\<close>

definition recoveredSigner ::
  "externals \<Rightarrow> env \<Rightarrow> address \<Rightarrow> uint256 \<Rightarrow> bool \<Rightarrow> uint256 \<Rightarrow> bytes \<Rightarrow> error + address" where
  "recoveredSigner x e player puzzleId correct timeRemaining signature =
     recover x (toEthSignedMessageHash x
       (keccak256_packed x (this_address e) player puzzleId correct timeRemaining)) signature"

text \<open>
  The order the sort works with: \<open>a\<close> is no worse than \<open>b\<close> when \<open>b\<close> is not
  better than \<open>a\<close>. A list is sorted up to \<open>i\<close> when each of its first \<open>i\<close>
  players is no worse than every player after it.
\<close>

definition noWorse :: "contract \<Rightarrow> address \<Rightarrow> address \<Rightarrow> bool" where
  "noWorse s a b = (\<not> isBetter s b a)"

definition sortedUpTo :: "contract \<Rightarrow> nat \<Rightarrow> address list \<Rightarrow> bool" where
  "sortedUpTo s i xs = (\<forall>a b. a < i \<and> a < b \<and> b < length xs \<longrightarrow> noWorse s (xs ! a) (xs ! b))"

text \<open>
  Competition ranking as the specification words it: the first position has rank 1, a
  later position has the rank of its predecessor when the two players are tied and its
  1-based position otherwise. \<open>sortedRoster\<close> is the array \<^verbatim>\<open>sortedPlayers\<close> of
  \<^verbatim>\<open>finalizeRanks\<close> after the sort.
\<close>

primrec competitionRank :: "contract \<Rightarrow> address list \<Rightarrow> nat \<Rightarrow> uint256" where
  "competitionRank s sp 0 = 1"
| "competitionRank s sp (Suc k) =
     (if areTied s (sp ! Suc k) (sp ! k) then competitionRank s sp k else of_nat (Suc k + 1))"

definition sortedRoster :: "contract \<Rightarrow> address list" where
  "sortedRoster s = sortOuter s 0 (allPlayers s)"

text \<open>
  The storage \<^verbatim>\<open>claimNFT\<close> has written when \<^verbatim>\<open>_safeMint\<close> calls the claimant: the
  claimed flag, the incremented counter \<^verbatim>\<open>_tokenIds\<close>, and the new token in the
  claimant's balance and ownership.
\<close>

definition claimWrites :: "env \<Rightarrow> contract \<Rightarrow> contract" where
  "claimWrites e s =
     s\<lparr>playerStats := (playerStats s)(msg_sender e :=
          (playerStats s (msg_sender e))\<lparr>claimedNFT := True\<rparr>),
       tokenIds := tokenIds s + 1,
       erc721_balances := (erc721_balances s)(msg_sender e :=
          erc721_balances s (msg_sender e) + 1),
       erc721_owners := (erc721_owners s)(tokenIds s + 1 := msg_sender e)\<rparr>"

text \<open>
  The calls of a callback as a history: they run in the block of the claim \<open>e\<close>, each
  with its own caller. A call is plain when no callback re-enters in it.
\<close>

definition nested :: "env \<Rightarrow> (address \<times> call) list \<Rightarrow> (env \<times> call) list" where
  "nested e cs = map (\<lambda>(a, c). (e\<lparr>msg_sender := a\<rparr>, c)) cs"

fun plain :: "call \<Rightarrow> bool" where
  "plain (ClaimNFT r) = (r = Receiver [] Accepted)"
| "plain c = True"

text \<open>
  Whether a call sets the puzzle \<open>puzzleId\<close>: a \<^verbatim>\<open>setPuzzleHash\<close> for it that does not
  revert, made directly or from the callback of a claim that does not revert; and whether
  some call of a history does.
\<close>

fun setsPuzzle :: "externals \<Rightarrow> env \<Rightarrow> call \<Rightarrow> contract \<Rightarrow> uint256 \<Rightarrow> bool"
  and callbackSetsPuzzle ::
    "externals \<Rightarrow> env \<Rightarrow> (address \<times> call) list \<Rightarrow> contract \<Rightarrow> uint256 \<Rightarrow> bool"
where
  "setsPuzzle x e (SetPuzzleHash i h p) s puzzleId =
     (i = puzzleId \<and> \<not> isl (setPuzzleHash e i h p s))"
| "setsPuzzle x e (ClaimNFT (Receiver cs ending)) s puzzleId =
     (\<not> isl (dispatch x e (ClaimNFT (Receiver cs ending)) s) \<and>
      callbackSetsPuzzle x e cs (claimWrites e s) puzzleId)"
| "setsPuzzle x e c s puzzleId = False"
| "callbackSetsPuzzle x e [] s puzzleId = False"
| "callbackSetsPuzzle x e ((a, c) # cs) s puzzleId =
     (setsPuzzle x (e\<lparr>msg_sender := a\<rparr>) c s puzzleId \<or>
      callbackSetsPuzzle x e cs (transact x (e\<lparr>msg_sender := a\<rparr>) c s) puzzleId)"

fun everSet :: "externals \<Rightarrow> (env \<times> call) list \<Rightarrow> contract \<Rightarrow> uint256 \<Rightarrow> bool" where
  "everSet x [] s puzzleId = False"
| "everSet x ((e, c) # cs) s puzzleId =
     (setsPuzzle x e c s puzzleId \<or> everSet x cs (transact x e c s) puzzleId)"

text \<open>
  Two invariants of the storage. \<open>rosterOk\<close>: the roster has no duplicates and is
  empty before the game starts, its players are marked active, only its players have a
  rank, and no token identifier above \<^verbatim>\<open>_tokenIds\<close> is minted. \<open>claimedFor p t\<close>:
  player \<open>p\<close> has claimed and has a rank, and at time \<open>t\<close> the game is over.
\<close>

definition rosterOk :: "contract \<Rightarrow> bool" where
  "rosterOk s \<longleftrightarrow>
     distinct (allPlayers s) \<and>
     (gameState s = NOT_STARTED \<longrightarrow> allPlayers s = []) \<and>
     (\<forall>p. p \<in> set (allPlayers s) \<longrightarrow> isActivePlayer (playerStats s p)) \<and>
     (\<forall>p. finalRank s p \<noteq> 0 \<longrightarrow> p \<in> set (allPlayers s)) \<and>
     (\<forall>i. erc721_owners s i \<noteq> 0 \<longrightarrow> i \<le> tokenIds s)"

definition claimedFor :: "address \<Rightarrow> uint256 \<Rightarrow> contract \<Rightarrow> bool" where
  "claimedFor p t s \<longleftrightarrow>
     claimedNFT (playerStats s p) \<and> finalRank s p \<noteq> 0 \<and>
     (gameState s = ENDED \<or>
      (unat (gameStartTimestamp s) + unat (gameDuration s) < 2 ^ 256 \<and>
       gameStartTimestamp s + gameDuration s < t))"

text \<open>
  \<open>mintedBelow i\<close>: the token \<open>i\<close> exists and \<^verbatim>\<open>_tokenIds\<close> has reached it, so that no
  later claim mints it again.
\<close>

definition mintedBelow :: "uint256 \<Rightarrow> contract \<Rightarrow> bool" where
  "mintedBelow i s \<longleftrightarrow> erc721_owners s i \<noteq> 0 \<and> i \<le> tokenIds s"

section \<open>A sample game\<close>

text \<open>
  The set-up of the repository's test suite: the owner (address 1) sets the relay
  (address 2) and the judge key (address 3), sets puzzle 0 with 10 base points and starts a
  game of 300 seconds at time 1000. In the sample externals the one-byte signature
  \<open>[1]\<close> recovers to address 3 and \<open>[2]\<close> to address 4.
\<close>

definition sample_externals :: externals where
  "sample_externals =
     \<lparr>keccak256_packed = (\<lambda>a p i c t. ucast a + ucast p + i + (if c then 1 else 0) + t),
      toEthSignedMessageHash = (\<lambda>h. h + 1),
      tryRecover = (\<lambda>h sg. if sg = [1] then Inr 3 else if sg = [2] then Inr 4
                            else Inl InvalidSignature)\<rparr>"

definition at_time :: "address \<Rightarrow> uint256 \<Rightarrow> env" where
  "at_time a t = \<lparr>msg_sender = a, block_timestamp = t, this_address = 100\<rparr>"

definition sample_setup :: "(env \<times> call) list" where
  "sample_setup =
     [(at_time 1 1000, SetAvsAddress 2),
      (at_time 1 1000, SetAvsSigner 3),
      (at_time 1 1000, SetPuzzleHash 0 77 10),
      (at_time 1 1000, StartGame 300)]"

definition sample_game :: contract where
  "sample_game = run sample_externals sample_setup (constructor (at_time 1 1000) ''uri'')"

text \<open>
  Player 5 solves puzzle 0 with 100 seconds remaining at time 1100 (\<open>sample_solved\<close>);
  then puzzle 1 is set (\<open>sample_next\<close>). In \<open>sample_ended_empty\<close> the owner ends the
  game before anyone has played.
\<close>

definition sample_solved :: contract where
  "sample_solved =
     transact sample_externals (at_time 2 1100) (SubmitResult 5 0 True 100 [1]) sample_game"

definition sample_next :: contract where
  "sample_next = transact sample_externals (at_time 1 1150) (SetPuzzleHash 1 78 20) sample_solved"

definition sample_ended_empty :: contract where
  "sample_ended_empty = transact sample_externals (at_time 1 1100) EndGame sample_game"

text \<open>
  In \<open>sample_three\<close> player 7 answers puzzle 0 wrongly, players 5 and 6 solve it in the
  same block (both with one bonus point), and the owner ends the game.
\<close>

definition sample_round :: "(env \<times> call) list" where
  "sample_round =
     [(at_time 2 1050, SubmitResult 7 0 False 200 [1]),
      (at_time 2 1100, SubmitResult 5 0 True 100 [1]),
      (at_time 2 1100, SubmitResult 6 0 True 80 [1]),
      (at_time 1 1200, EndGame)]"

definition sample_three :: contract where
  "sample_three = run sample_externals sample_round sample_game"

text \<open>Then somebody finalises the ranks (\<open>sample_ranked\<close>).\<close>

definition sample_ranked :: contract where
  "sample_ranked = transact sample_externals (at_time 9 1250) FinalizeRanks sample_three"

definition sample_ranked_history :: "(env \<times> call) list" where
  "sample_ranked_history = sample_setup @ sample_round @ [(at_time 9 1250, FinalizeRanks)]"

text \<open>The history of \<open>sample_solved\<close>, from the deployment on.\<close>

definition sample_history :: "(env \<times> call) list" where
  "sample_history = sample_setup @ [(at_time 2 1100, SubmitResult 5 0 True 100 [1])]"

text \<open>
  A claimant contract (player 5) whose callback moves the token it has just received to
  address 8, lets player 6 claim, and tries to claim a second time.
\<close>

definition sample_receiver :: receiver where
  "sample_receiver =
     Receiver [(5, TransferFrom 5 8 1),
               (6, ClaimNFT (Receiver [] Accepted)),
               (5, ClaimNFT (Receiver [] Accepted))] Accepted"

section \<open>Basic facts\<close>

lemma bindE_Inr_iff: "bindE m f = Inr y \<longleftrightarrow> (\<exists>v. m = Inr v \<and> f v = Inr y)"
  by (cases m) (simp_all add: bindE_def)

lemma bindE_Inl_iff: "bindE m f = Inl err \<longleftrightarrow> m = Inl err \<or> (\<exists>v. m = Inr v \<and> f v = Inl err)"
  by (cases m) (simp_all add: bindE_def)

lemma bindE_simps: "bindE (Inl err) f = Inl err" "bindE (Inr v) f = f v"
  by (simp_all add: bindE_def)

lemma require_Inr_iff: "require c msg = Inr u \<longleftrightarrow> c"
  by (simp add: require_def)

lemma require_Inl_iff: "require c msg = Inl err \<longleftrightarrow> \<not> c \<and> err = Revert msg"
  by (auto simp add: require_def)

lemma checked_add_Inr_iff:
  "checked_add a b = Inr c \<longleftrightarrow> unat a + unat b < 2 ^ 256 \<and> c = a + b"
  by (auto simp: checked_add_def)

lemma checked_add_Inl_iff:
  "checked_add a b = Inl err \<longleftrightarrow> \<not> unat a + unat b < 2 ^ 256 \<and> err = Panic 0x11"
  by (auto simp: checked_add_def)

lemma unat_checked_sum: "unat a + unat b < 2 ^ 256 \<Longrightarrow> unat (a + b :: uint256) = unat a + unat b"
  by (simp add: unat_word_ariths)

lemma onlyWhenActive_Inr_iff:
  "onlyWhenActive e s = Inr u \<longleftrightarrow>
     gameState s = ACTIVE \<and> unat (gameStartTimestamp s) + unat (gameDuration s) < 2 ^ 256 \<and>
     block_timestamp e \<le> gameStartTimestamp s + gameDuration s"
  by (auto simp: onlyWhenActive_def bindE_Inr_iff require_Inr_iff checked_add_Inr_iff)

lemma requireGameEnded_Inr_iff:
  "requireGameEnded e s = Inr u \<longleftrightarrow>
     gameState s = ENDED \<or>
     (unat (gameStartTimestamp s) + unat (gameDuration s) < 2 ^ 256 \<and>
      block_timestamp e > gameStartTimestamp s + gameDuration s)"
  by (auto simp: requireGameEnded_def bindE_Inr_iff require_Inr_iff checked_add_Inr_iff)

lemma submitResult_Inr_iff:
  "submitResult x e player puzzleId correct timeRemaining signature s = Inr s' \<longleftrightarrow>
     onlyWhenActive e s = Inr () \<and>
     msg_sender e = avsAddress s \<and>
     recover x (toEthSignedMessageHash x
        (keccak256_packed x (this_address e) player puzzleId correct timeRemaining)) signature
       = Inr (avsSigner s) \<and>
     puzzleId = puzzleIndex (playerStats s player) \<and>
     active (puzzles s puzzleId) \<and>
     (if correct then
        unat (basePoints (puzzles s puzzleId)) + unat (timeRemaining div 60) < 2 ^ 256 \<and>
        unat (score (playerStats s player)) + unat (basePoints (puzzles s puzzleId) + timeRemaining div 60) < 2 ^ 256 \<and>
        unat (puzzleIndex (playerStats s player)) + unat (1 :: uint256) < 2 ^ 256 \<and>
        s' = (markActive player s)\<lparr>playerStats := (playerStats (markActive player s))(player :=
               (playerStats (markActive player s) player)\<lparr>
                  score := score (playerStats s player) + (basePoints (puzzles s puzzleId) + timeRemaining div 60),
                  puzzleIndex := puzzleIndex (playerStats s player) + 1,
                  lastSolveTime := block_timestamp e\<rparr>)\<rparr>
      else
        s' = (markActive player s)\<lparr>playerStats := (playerStats (markActive player s))(player :=
               (playerStats (markActive player s) player)\<lparr>
                  score := (if score (playerStats s player) \<ge> 2 then score (playerStats s player) - 2 else 0)\<rparr>)\<rparr>)"
  unfolding submitResult_def markActive_def
  by (auto simp: bindE_Inr_iff require_Inr_iff checked_add_Inr_iff Let_def)

lemma sortOuter_Nil: "sortOuter s i [] = []"
  by (subst sortOuter.simps) simp


lemma submitResult_correct_D:
  assumes "submitResult x e player puzzleId True timeRemaining signature s = Inr s'"
  shows "unat (basePoints (puzzles s puzzleId)) + unat (timeRemaining div 60) < 2 ^ 256"
    and "unat (score (playerStats s player)) +
           unat (basePoints (puzzles s puzzleId) + timeRemaining div 60) < 2 ^ 256"
    and "unat (puzzleIndex (playerStats s player)) + unat (1 :: uint256) < 2 ^ 256"
    and "score (playerStats s' player) =
           score (playerStats s player) + (basePoints (puzzles s puzzleId) + timeRemaining div 60)"
    and "puzzleIndex (playerStats s' player) = puzzleIndex (playerStats s player) + 1"
    and "lastSolveTime (playerStats s' player) = block_timestamp e"
proof -
  from assms have *:
    "unat (basePoints (puzzles s puzzleId)) + unat (timeRemaining div 60) < 2 ^ 256 \<and>
     unat (score (playerStats s player)) +
       unat (basePoints (puzzles s puzzleId) + timeRemaining div 60) < 2 ^ 256 \<and>
     unat (puzzleIndex (playerStats s player)) + unat (1 :: uint256) < 2 ^ 256 \<and>
     s' = (markActive player s)\<lparr>playerStats := (playerStats (markActive player s))(player :=
               (playerStats (markActive player s) player)\<lparr>
                  score := score (playerStats s player) + (basePoints (puzzles s puzzleId) + timeRemaining div 60),
                  puzzleIndex := puzzleIndex (playerStats s player) + 1,
                  lastSolveTime := block_timestamp e\<rparr>)\<rparr>"
    unfolding submitResult_Inr_iff if_True by blast
  from * show "unat (basePoints (puzzles s puzzleId)) + unat (timeRemaining div 60) < 2 ^ 256"
    by blast
  from * show "unat (score (playerStats s player)) +
           unat (basePoints (puzzles s puzzleId) + timeRemaining div 60) < 2 ^ 256"
    by blast
  from * show "unat (puzzleIndex (playerStats s player)) + unat (1 :: uint256) < 2 ^ 256"
    by blast
  from * have s': "s' = (markActive player s)\<lparr>playerStats := (playerStats (markActive player s))(player :=
               (playerStats (markActive player s) player)\<lparr>
                  score := score (playerStats s player) + (basePoints (puzzles s puzzleId) + timeRemaining div 60),
                  puzzleIndex := puzzleIndex (playerStats s player) + 1,
                  lastSolveTime := block_timestamp e\<rparr>)\<rparr>"
    by blast
  show "score (playerStats s' player) =
           score (playerStats s player) + (basePoints (puzzles s puzzleId) + timeRemaining div 60)"
    by (simp add: s')
  show "puzzleIndex (playerStats s' player) = puzzleIndex (playerStats s player) + 1"
    by (simp add: s')
  show "lastSolveTime (playerStats s' player) = block_timestamp e"
    by (simp add: s')
qed

lemma submitResult_wrong_D:
  assumes "submitResult x e player puzzleId False timeRemaining signature s = Inr s'"
  shows "score (playerStats s' player) =
           (if score (playerStats s player) \<ge> 2 then score (playerStats s player) - 2 else 0)"
    and "puzzleIndex (playerStats s' player) = puzzleIndex (playerStats s player)"
    and "lastSolveTime (playerStats s' player) = lastSolveTime (playerStats s player)"
proof -
  from assms have s': "s' = (markActive player s)\<lparr>playerStats := (playerStats (markActive player s))(player :=
               (playerStats (markActive player s) player)\<lparr>
                  score := (if score (playerStats s player) \<ge> 2 then score (playerStats s player) - 2 else 0)\<rparr>)\<rparr>"
    unfolding submitResult_Inr_iff if_False by blast
  show "score (playerStats s' player) =
           (if score (playerStats s player) \<ge> 2 then score (playerStats s player) - 2 else 0)"
    by (simp add: s')
  show "puzzleIndex (playerStats s' player) = puzzleIndex (playerStats s player)"
    by (simp add: s' markActive_def)
  show "lastSolveTime (playerStats s' player) = lastSolveTime (playerStats s player)"
    by (simp add: s' markActive_def)
qed

lemma transact_reverted: "dispatch x e c s = Inl err \<Longrightarrow> transact x e c s = s"
  by (simp add: transact_def)

lemma not_Inr_is_Inl: "(\<And>v. m \<noteq> Inr v) \<Longrightarrow> \<exists>err. m = Inl err"
  by (cases m) auto

lemma submitResult_Inr_D:
  assumes "submitResult x e player puzzleId correct timeRemaining signature s = Inr s'"
  shows "onlyWhenActive e s = Inr ()"
    and "msg_sender e = avsAddress s"
    and "recoveredSigner x e player puzzleId correct timeRemaining signature = Inr (avsSigner s)"
    and "puzzleId = puzzleIndex (playerStats s player)"
    and "active (puzzles s puzzleId)"
  using assms unfolding submitResult_Inr_iff recoveredSigner_def by blast+

lemma submitResult_not_relay:
  "onlyWhenActive e s = Inr () \<Longrightarrow> msg_sender e \<noteq> avsAddress s \<Longrightarrow>
   submitResult x e player puzzleId correct timeRemaining signature s =
     Inl (Revert ''Caller is not AVS address'')"
  by (simp add: submitResult_def bindE_def require_def)

lemma submitResult_not_judge:
  "onlyWhenActive e s = Inr () \<Longrightarrow> msg_sender e = avsAddress s \<Longrightarrow>
   recoveredSigner x e player puzzleId correct timeRemaining signature = Inr r \<Longrightarrow>
   r \<noteq> avsSigner s \<Longrightarrow>
   submitResult x e player puzzleId correct timeRemaining signature s =
     Inl (Revert ''Invalid AVS signature'')"
  by (simp add: submitResult_def bindE_def require_def recoveredSigner_def)

lemma submitResult_malformed_signature:
  "onlyWhenActive e s = Inr () \<Longrightarrow> msg_sender e = avsAddress s \<Longrightarrow>
   recoveredSigner x e player puzzleId correct timeRemaining signature = Inl err \<Longrightarrow>
   submitResult x e player puzzleId correct timeRemaining signature s = Inl err"
  by (simp add: submitResult_def bindE_def require_def recoveredSigner_def)

lemma submitResult_wrong_index:
  "onlyWhenActive e s = Inr () \<Longrightarrow> msg_sender e = avsAddress s \<Longrightarrow>
   recoveredSigner x e player puzzleId correct timeRemaining signature = Inr (avsSigner s) \<Longrightarrow>
   puzzleId \<noteq> puzzleIndex (playerStats s player) \<Longrightarrow>
   submitResult x e player puzzleId correct timeRemaining signature s =
     Inl (Revert ''Wrong puzzle index'')"
  by (simp add: submitResult_def bindE_def require_def recoveredSigner_def Let_def)

lemma submitResult_not_active:
  "onlyWhenActive e s = Inr () \<Longrightarrow> msg_sender e = avsAddress s \<Longrightarrow>
   recoveredSigner x e player puzzleId correct timeRemaining signature = Inr (avsSigner s) \<Longrightarrow>
   puzzleId = puzzleIndex (playerStats s player) \<Longrightarrow>
   \<not> active (puzzles s puzzleId) \<Longrightarrow>
   submitResult x e player puzzleId correct timeRemaining signature s =
     Inl (Revert ''Puzzle not active'')"
  by (simp add: submitResult_def bindE_def require_def recoveredSigner_def Let_def)

lemma finalizeRanks_Inr_D:
  "finalizeRanks e s = Inr s' \<Longrightarrow> requireGameEnded e s = Inr ()"
  by (auto simp: finalizeRanks_def bindE_Inr_iff)

lemma checkOnERC721Received_plain: "checkOnERC721Received x e (Receiver [] Accepted) = Inr"
  by (rule ext) simp

lemma dispatch_ClaimNFT_plain:
  "dispatch x e (ClaimNFT (Receiver [] Accepted)) s = claimNFT Inr e s"
  by (simp add: checkOnERC721Received_plain)

lemma claimNFT_Inr_D:
  "claimNFT received e s = Inr s' \<Longrightarrow> requireGameEnded e s = Inr ()"
  by (auto simp: claimNFT_def bindE_Inr_iff)

lemma onlyWhenActive_window:
  assumes "onlyWhenActive e s = Inr ()"
  shows "gameState s = ACTIVE"
    and "unat (block_timestamp e) \<le> unat (gameStartTimestamp s) + unat (gameDuration s)"
proof -
  from assms have a: "gameState s = ACTIVE"
    and b: "unat (gameStartTimestamp s) + unat (gameDuration s) < 2 ^ 256"
    and c: "block_timestamp e \<le> gameStartTimestamp s + gameDuration s"
    unfolding onlyWhenActive_Inr_iff by blast+
  show "gameState s = ACTIVE" by (rule a)
  from c have "unat (block_timestamp e) \<le> unat (gameStartTimestamp s + gameDuration s)"
    by (simp add: word_le_nat_alt)
  with unat_checked_sum [OF b]
  show "unat (block_timestamp e) \<le> unat (gameStartTimestamp s) + unat (gameDuration s)"
    by simp
qed

lemma requireGameEnded_window:
  assumes "requireGameEnded e s = Inr ()"
  shows "gameState s = ENDED \<or>
         unat (block_timestamp e) > unat (gameStartTimestamp s) + unat (gameDuration s)"
proof (cases "gameState s = ENDED")
  case True
  then show ?thesis by simp
next
  case False
  with assms have b: "unat (gameStartTimestamp s) + unat (gameDuration s) < 2 ^ 256"
    and c: "block_timestamp e > gameStartTimestamp s + gameDuration s"
    unfolding requireGameEnded_Inr_iff by blast+
  from c have "unat (block_timestamp e) > unat (gameStartTimestamp s + gameDuration s)"
    by (simp add: word_less_nat_alt)
  with unat_checked_sum [OF b] show ?thesis
    by simp
qed

lemma roster_length: "distinct (xs :: address list) \<Longrightarrow> length xs < 2 ^ 256"
proof -
  assume "distinct xs"
  then have "length xs = card (set xs)"
    by (simp add: distinct_card)
  also have "\<dots> \<le> card (UNIV :: address set)"
    by (rule card_mono) simp_all
  also have "\<dots> = 2 ^ 160"
    by (simp add: card_word)
  also have "\<dots> < (2 :: nat) ^ 256"
    by simp
  finally show ?thesis .
qed

section \<open>The sample game, evaluated\<close>

lemmas admin_defs = transact_def setAvsAddress_def setAvsSigner_def setPuzzleHash_def startGame_def
  endGame_def onlyOwner_def onlyPuzzleCreator_def require_def bindE_def checked_add_def

lemma sample_game_eq:
  "sample_game =
     \<lparr>owner = 1,
      erc721_owners = (\<lambda>_. 0),
      erc721_balances = (\<lambda>_. 0),
      avsAddress = 2,
      avsSigner = 3,
      puzzleCreators = (\<lambda>_. False),
      gameState = ACTIVE,
      gameStartTimestamp = 1000,
      gameDuration = 300,
      puzzleCount = 1,
      puzzles = ((\<lambda>_. emptyPuzzle)(0 := \<lparr>puzzleHash = 77, basePoints = 10, active = True\<rparr>)),
      allPlayers = [],
      playerStats = (\<lambda>_. emptyStats),
      tokenIds = 0,
      baseTokenURI = ''uri'',
      finalRank = (\<lambda>_. 0)\<rparr>"
  by (simp add: sample_game_def sample_setup_def constructor_def at_time_def admin_defs)

lemma sample_submit:
  "submitResult sample_externals (at_time 2 1100) 5 0 True 100 [1] sample_game = Inr 
     (sample_game\<lparr>playerStats := (\<lambda>_. emptyStats)(5 := \<lparr>score = 11, puzzleIndex = 1, claimedNFT = False, isActivePlayer = True,
     lastSolveTime = 1100\<rparr>), allPlayers := [5]\<rparr>)"
  by (simp add: sample_game_eq submitResult_def onlyWhenActive_def sample_externals_def at_time_def
        emptyStats_def emptyPuzzle_def require_def bindE_def checked_add_def recover_def Let_def)

lemma sample_solved_eq:
  "sample_solved =
     \<lparr>owner = 1,
      erc721_owners = (\<lambda>_. 0),
      erc721_balances = (\<lambda>_. 0),
      avsAddress = 2,
      avsSigner = 3,
      puzzleCreators = (\<lambda>_. False),
      gameState = ACTIVE,
      gameStartTimestamp = 1000,
      gameDuration = 300,
      puzzleCount = 1,
      puzzles = ((\<lambda>_. emptyPuzzle)(0 := \<lparr>puzzleHash = 77, basePoints = 10, active = True\<rparr>)),
      allPlayers = [5],
      playerStats = ((\<lambda>_. emptyStats)(5 := \<lparr>score = 11, puzzleIndex = 1, claimedNFT = False,
         isActivePlayer = True, lastSolveTime = 1100\<rparr>)),
      tokenIds = 0,
      baseTokenURI = ''uri'',
      finalRank = (\<lambda>_. 0)\<rparr>"
  by (simp only: sample_solved_def transact_def dispatch.simps sample_submit sum.case)
     (simp add: sample_game_eq)

lemma sample_next_eq:
  "sample_next =
     \<lparr>owner = 1,
      erc721_owners = (\<lambda>_. 0),
      erc721_balances = (\<lambda>_. 0),
      avsAddress = 2,
      avsSigner = 3,
      puzzleCreators = (\<lambda>_. False),
      gameState = ACTIVE,
      gameStartTimestamp = 1000,
      gameDuration = 300,
      puzzleCount = 2,
      puzzles = ((\<lambda>_. emptyPuzzle)(0 := \<lparr>puzzleHash = 77, basePoints = 10, active = True\<rparr>,
                                   1 := \<lparr>puzzleHash = 78, basePoints = 20, active = True\<rparr>)),
      allPlayers = [5],
      playerStats = ((\<lambda>_. emptyStats)(5 := \<lparr>score = 11, puzzleIndex = 1, claimedNFT = False,
         isActivePlayer = True, lastSolveTime = 1100\<rparr>)),
      tokenIds = 0,
      baseTokenURI = ''uri'',
      finalRank = (\<lambda>_. 0)\<rparr>"
  by (simp add: sample_next_def sample_solved_eq at_time_def admin_defs)

lemmas submit_defs = submitResult_def onlyWhenActive_def sample_externals_def at_time_def
  emptyStats_def emptyPuzzle_def require_def bindE_def checked_add_def recover_def Let_def

lemma sample_three_eq:
  "sample_three =
     \<lparr>owner = 1,
      erc721_owners = (\<lambda>_. 0),
      erc721_balances = (\<lambda>_. 0),
      avsAddress = 2,
      avsSigner = 3,
      puzzleCreators = (\<lambda>_. False),
      gameState = ENDED,
      gameStartTimestamp = 1000,
      gameDuration = 300,
      puzzleCount = 1,
      puzzles = ((\<lambda>_. emptyPuzzle)(0 := \<lparr>puzzleHash = 77, basePoints = 10, active = True\<rparr>)),
      allPlayers = [7, 5, 6],
      playerStats = ((\<lambda>_. emptyStats)
        (7 := \<lparr>score = 0, puzzleIndex = 0, claimedNFT = False, isActivePlayer = True,
                 lastSolveTime = 0\<rparr>,
         5 := \<lparr>score = 11, puzzleIndex = 1, claimedNFT = False, isActivePlayer = True,
                 lastSolveTime = 1100\<rparr>,
         6 := \<lparr>score = 11, puzzleIndex = 1, claimedNFT = False, isActivePlayer = True,
                 lastSolveTime = 1100\<rparr>)),
      tokenIds = 0,
      baseTokenURI = ''uri'',
      finalRank = (\<lambda>_. 0)\<rparr>"
  by (simp add: sample_three_def sample_round_def sample_game_eq transact_def submit_defs
        endGame_def onlyOwner_def)

lemma sortedRoster_sample_three: "sortedRoster sample_three = [5, 6, 7]"
  by (simp add: sortedRoster_def sample_three_eq sortOuter.simps sortInner.simps isBetter_def
        emptyStats_def)

section \<open>Scoring\<close>

text \<open>
  C1: a call of \<^verbatim>\<open>submitResult\<close> with \<open>correct = true\<close> that succeeds raises the
  player's score by exactly \<open>basePoints + timeRemaining div 60\<close> (read as natural
  numbers: the checked additions did not overflow), raises the player's puzzle index by
  exactly 1 and sets the player's last solve time to the block timestamp of the call.
\<close>

theorem submitResult_correct_awards_points:
  assumes "submitResult x e player puzzleId True timeRemaining signature s = Inr s'"
  shows "unat (score (playerStats s' player)) =
           unat (score (playerStats s player)) +
           (unat (basePoints (puzzles s puzzleId)) + unat timeRemaining div 60) \<and>
         unat (puzzleIndex (playerStats s' player)) = unat (puzzleIndex (playerStats s player)) + 1 \<and>
         lastSolveTime (playerStats s' player) = block_timestamp e"
proof -
  let ?pts = "basePoints (puzzles s puzzleId) + timeRemaining div 60"
  note d = submitResult_correct_D [OF assms]
  have "unat ?pts = unat (basePoints (puzzles s puzzleId)) + unat (timeRemaining div 60)"
    using d(1) by (rule unat_checked_sum)
  then have pts: "unat ?pts = unat (basePoints (puzzles s puzzleId)) + unat timeRemaining div 60"
    by (simp add: unat_div)
  have "unat (score (playerStats s' player)) = unat (score (playerStats s player)) + unat ?pts"
    unfolding d(4) using d(2) by (rule unat_checked_sum)
  with pts have sc: "unat (score (playerStats s' player)) =
      unat (score (playerStats s player)) +
      (unat (basePoints (puzzles s puzzleId)) + unat timeRemaining div 60)"
    by (simp only:)
  have "unat (puzzleIndex (playerStats s' player)) =
      unat (puzzleIndex (playerStats s player)) + unat (1 :: uint256)"
    unfolding d(5) using d(3) by (rule unat_checked_sum)
  then have ix: "unat (puzzleIndex (playerStats s' player)) =
      unat (puzzleIndex (playerStats s player)) + 1"
    by simp
  from sc ix d(6) show ?thesis by blast
qed

theorem submitResult_correct_awards_points_witness:
  "\<exists>s'. submitResult sample_externals (at_time 2 1100) 5 0 True 100 [1] sample_game = Inr s' \<and>
        unat (score (playerStats s' 5)) = 11 \<and>
        unat (puzzleIndex (playerStats s' 5)) = 1 \<and>
        lastSolveTime (playerStats s' 5) = 1100"
proof -
  obtain s' where
    h: "submitResult sample_externals (at_time 2 1100) 5 0 True 100 [1] sample_game = Inr s'"
    using sample_submit by blast
  from submitResult_correct_awards_points [OF h] h show ?thesis
    by (simp add: sample_game_eq emptyStats_def at_time_def)
qed

text \<open>
  C2: a call of \<^verbatim>\<open>submitResult\<close> with \<open>correct = false\<close> that succeeds leaves the
  player with the score \<open>max 0 (score - 2)\<close> and does not change the player's puzzle
  index and last solve time.
\<close>

theorem submitResult_wrong_penalty:
  assumes "submitResult x e player puzzleId False timeRemaining signature s = Inr s'"
  shows "uint (score (playerStats s' player)) = max 0 (uint (score (playerStats s player)) - 2) \<and>
         puzzleIndex (playerStats s' player) = puzzleIndex (playerStats s player) \<and>
         lastSolveTime (playerStats s' player) = lastSolveTime (playerStats s player)"
proof -
  note d = submitResult_wrong_D [OF assms]
  have "unat (score (playerStats s' player)) = unat (score (playerStats s player)) - 2"
  proof (cases "score (playerStats s player) \<ge> 2")
    case True
    then have "unat (score (playerStats s player) - 2) = unat (score (playerStats s player)) - 2"
      by (simp add: unat_sub)
    then show ?thesis using d(1) True by simp
  next
    case False
    then have "unat (score (playerStats s player)) < 2"
      by (simp add: word_le_nat_alt)
    then show ?thesis using d(1) False by simp
  qed
  then have "int (unat (score (playerStats s' player))) =
      int (unat (score (playerStats s player)) - 2)"
    by (simp only:)
  also have "\<dots> = max 0 (int (unat (score (playerStats s player))) - 2)"
    by arith
  finally have "uint (score (playerStats s' player)) =
      max 0 (uint (score (playerStats s player)) - 2)"
    unfolding uint_nat .
  then show ?thesis using d(2) d(3) by blast
qed


theorem submitResult_wrong_penalty_witness:
  "\<exists>s' s''.
     submitResult sample_externals (at_time 2 1200) 5 1 False 40 [1] sample_next = Inr s' \<and>
     uint (score (playerStats sample_next 5)) = 11 \<and>
     uint (score (playerStats s' 5)) = 9 \<and>
     puzzleIndex (playerStats s' 5) = 1 \<and>
     lastSolveTime (playerStats s' 5) = 1100 \<and>
     submitResult sample_externals (at_time 2 1200) 6 0 False 40 [1] sample_next = Inr s'' \<and>
     uint (score (playerStats sample_next 6)) = 0 \<and>
     uint (score (playerStats s'' 6)) = 0"
proof -
  obtain s' where
    h1: "submitResult sample_externals (at_time 2 1200) 5 1 False 40 [1] sample_next = Inr s'"
    by (simp add: sample_next_eq submit_defs)
  obtain s'' where
    h2: "submitResult sample_externals (at_time 2 1200) 6 0 False 40 [1] sample_next = Inr s''"
    by (simp add: sample_next_eq submit_defs)
  have a1: "uint (score (playerStats sample_next 5)) = 11"
    and a2: "uint (score (playerStats sample_next 6)) = 0"
    and a3: "puzzleIndex (playerStats sample_next 5) = 1"
    and a4: "lastSolveTime (playerStats sample_next 5) = 1100"
    by (simp_all add: sample_next_eq emptyStats_def)
  from submitResult_wrong_penalty [OF h1] a1 a3 a4
  have b1: "uint (score (playerStats s' 5)) = 9 \<and> puzzleIndex (playerStats s' 5) = 1 \<and>
    lastSolveTime (playerStats s' 5) = 1100"
    by simp
  from submitResult_wrong_penalty [OF h2] a2
  have b2: "uint (score (playerStats s'' 6)) = 0"
    by simp
  from h1 h2 a1 a2 b1 b2 show ?thesis by blast
qed

section \<open>Who may submit, and in what order\<close>

text \<open>
  C3: \<^verbatim>\<open>submitResult\<close> succeeds only if the caller is the relay \<^verbatim>\<open>avsAddress\<close> and
  the signature recovers to the judge key \<^verbatim>\<open>avsSigner\<close>. If the caller is not the relay
  the call reverts whatever the signature, and if the signature does not recover to the
  judge key the call reverts whoever calls; in both cases the storage is unchanged. Inside
  the game's window the two failures raise \<^verbatim>\<open>Caller is not AVS address\<close> and
  \<^verbatim>\<open>Invalid AVS signature\<close>.
\<close>

theorem submitResult_needs_relay_and_judge:
  "(submitResult x e player puzzleId correct timeRemaining signature s = Inr s' \<longrightarrow>
      msg_sender e = avsAddress s \<and>
      recoveredSigner x e player puzzleId correct timeRemaining signature = Inr (avsSigner s)) \<and>
   (msg_sender e \<noteq> avsAddress s \<longrightarrow>
      (\<exists>err. submitResult x e player puzzleId correct timeRemaining signature s = Inl err) \<and>
      transact x e (SubmitResult player puzzleId correct timeRemaining signature) s = s) \<and>
   (recoveredSigner x e player puzzleId correct timeRemaining signature \<noteq> Inr (avsSigner s) \<longrightarrow>
      (\<exists>err. submitResult x e player puzzleId correct timeRemaining signature s = Inl err) \<and>
      transact x e (SubmitResult player puzzleId correct timeRemaining signature) s = s) \<and>
   (onlyWhenActive e s = Inr () \<and> msg_sender e \<noteq> avsAddress s \<longrightarrow>
      submitResult x e player puzzleId correct timeRemaining signature s =
        Inl (Revert ''Caller is not AVS address'')) \<and>
   (onlyWhenActive e s = Inr () \<and> msg_sender e = avsAddress s \<and>
    recoveredSigner x e player puzzleId correct timeRemaining signature = Inr r \<and>
    r \<noteq> avsSigner s \<longrightarrow>
      submitResult x e player puzzleId correct timeRemaining signature s =
        Inl (Revert ''Invalid AVS signature''))"
proof -
  let ?call = "submitResult x e player puzzleId correct timeRemaining signature s"
  let ?tx = "transact x e (SubmitResult player puzzleId correct timeRemaining signature) s"
  have fails: "(\<exists>err. ?call = Inl err) \<and> ?tx = s" if "\<And>v. ?call \<noteq> Inr v"
  proof -
    from that obtain err where "?call = Inl err"
      using not_Inr_is_Inl by blast
    moreover from this have "?tx = s"
      by (simp add: transact_def)
    ultimately show ?thesis by blast
  qed
  have 1: "?call = Inr s' \<longrightarrow> msg_sender e = avsAddress s \<and>
      recoveredSigner x e player puzzleId correct timeRemaining signature = Inr (avsSigner s)"
    using submitResult_Inr_D(2,3) by blast
  have 2: "msg_sender e \<noteq> avsAddress s \<longrightarrow> (\<exists>err. ?call = Inl err) \<and> ?tx = s"
    using fails submitResult_Inr_D(2) by blast
  have 3: "recoveredSigner x e player puzzleId correct timeRemaining signature \<noteq> Inr (avsSigner s)
      \<longrightarrow> (\<exists>err. ?call = Inl err) \<and> ?tx = s"
    using fails submitResult_Inr_D(3) by blast
  from 1 2 3 submitResult_not_relay submitResult_not_judge show ?thesis
    by blast
qed

theorem submitResult_needs_relay_and_judge_witness:
  "submitResult sample_externals (at_time 9 1100) 5 0 True 100 [1] sample_game =
     Inl (Revert ''Caller is not AVS address'') \<and>
   transact sample_externals (at_time 9 1100) (SubmitResult 5 0 True 100 [1]) sample_game =
     sample_game \<and>
   submitResult sample_externals (at_time 2 1100) 5 0 True 100 [2] sample_game =
     Inl (Revert ''Invalid AVS signature'') \<and>
   transact sample_externals (at_time 2 1100) (SubmitResult 5 0 True 100 [2]) sample_game =
     sample_game \<and>
   msg_sender (at_time 2 1100) = avsAddress sample_game \<and>
   recoveredSigner sample_externals (at_time 2 1100) 5 0 True 100 [1] = Inr (avsSigner sample_game)"
proof -
  have g: "onlyWhenActive (at_time 9 1100) sample_game = Inr ()"
    "onlyWhenActive (at_time 2 1100) sample_game = Inr ()"
    by (simp_all add: sample_game_eq submit_defs)
  have a: "msg_sender (at_time 9 1100) \<noteq> avsAddress sample_game"
    "msg_sender (at_time 2 1100) = avsAddress sample_game"
    by (simp_all add: sample_game_eq at_time_def)
  have r: "recoveredSigner sample_externals (at_time 2 1100) 5 0 True 100 [2] = Inr 4"
    "recoveredSigner sample_externals (at_time 2 1100) 5 0 True 100 [2] \<noteq> Inr (avsSigner sample_game)"
    "(4 :: address) \<noteq> avsSigner sample_game"
    "recoveredSigner sample_externals (at_time 2 1100) 5 0 True 100 [1] = Inr (avsSigner sample_game)"
    by (simp_all add: sample_game_eq recoveredSigner_def recover_def sample_externals_def)
  from submitResult_needs_relay_and_judge
         [of sample_externals "at_time 9 1100" 5 0 True 100 "[1]" sample_game]
       submitResult_needs_relay_and_judge
         [of sample_externals "at_time 2 1100" 5 0 True 100 "[2]" sample_game _ 4]
       g a r
  show ?thesis by blast
qed

text \<open>
  C4: when the submitted puzzle is not the player's current puzzle index, or the puzzle at
  that index is not active, \<^verbatim>\<open>submitResult\<close> reverts and the storage is unchanged: the
  roster and the player's active flag are what they were, although the function appends a
  first-time player to the roster before it checks the puzzle. Past the checks of the
  window, the relay and the signature, the errors are \<^verbatim>\<open>Wrong puzzle index\<close> and
  \<^verbatim>\<open>Puzzle not active\<close>.
\<close>

theorem submitResult_sequence_errors:
  assumes "puzzleId \<noteq> puzzleIndex (playerStats s player) \<or> \<not> active (puzzles s puzzleId)"
  shows "(\<exists>err. submitResult x e player puzzleId correct timeRemaining signature s = Inl err) \<and>
         transact x e (SubmitResult player puzzleId correct timeRemaining signature) s = s \<and>
         allPlayers (transact x e (SubmitResult player puzzleId correct timeRemaining signature) s) =
           allPlayers s \<and>
         isActivePlayer (playerStats
             (transact x e (SubmitResult player puzzleId correct timeRemaining signature) s) player) =
           isActivePlayer (playerStats s player) \<and>
         (onlyWhenActive e s = Inr () \<and> msg_sender e = avsAddress s \<and>
          recoveredSigner x e player puzzleId correct timeRemaining signature = Inr (avsSigner s) \<longrightarrow>
            submitResult x e player puzzleId correct timeRemaining signature s =
              Inl (Revert (if puzzleId \<noteq> puzzleIndex (playerStats s player)
                           then ''Wrong puzzle index'' else ''Puzzle not active'')))"
proof -
  let ?call = "submitResult x e player puzzleId correct timeRemaining signature s"
  let ?tx = "transact x e (SubmitResult player puzzleId correct timeRemaining signature) s"
  from assms have "\<And>v. ?call \<noteq> Inr v"
    using submitResult_Inr_D(4,5) by blast
  then obtain err where err: "?call = Inl err"
    using not_Inr_is_Inl by blast
  then have tx: "?tx = s"
    by (simp add: transact_def)
  have msg: "?call = Inl (Revert (if puzzleId \<noteq> puzzleIndex (playerStats s player)
                           then ''Wrong puzzle index'' else ''Puzzle not active''))"
    if "onlyWhenActive e s = Inr ()" "msg_sender e = avsAddress s"
       "recoveredSigner x e player puzzleId correct timeRemaining signature = Inr (avsSigner s)"
  proof (cases "puzzleId \<noteq> puzzleIndex (playerStats s player)")
    case True
    with that show ?thesis by (simp add: submitResult_wrong_index)
  next
    case False
    with that assms show ?thesis by (simp add: submitResult_not_active)
  qed
  from err tx msg show ?thesis
    by (simp only: tx) blast
qed

theorem submitResult_sequence_errors_witness:
  "submitResult sample_externals (at_time 2 1200) 6 3 True 100 [1] sample_solved =
     Inl (Revert ''Wrong puzzle index'') \<and>
   allPlayers (transact sample_externals (at_time 2 1200) (SubmitResult 6 3 True 100 [1])
     sample_solved) = [5] \<and>
   isActivePlayer (playerStats (transact sample_externals (at_time 2 1200)
     (SubmitResult 6 3 True 100 [1]) sample_solved) 6) = False \<and>
   submitResult sample_externals (at_time 2 1200) 5 1 True 100 [1] sample_solved =
     Inl (Revert ''Puzzle not active'') \<and>
   transact sample_externals (at_time 2 1200) (SubmitResult 5 1 True 100 [1]) sample_solved =
     sample_solved"
proof -
  have g: "onlyWhenActive (at_time 2 1200) sample_solved = Inr ()"
    "msg_sender (at_time 2 1200) = avsAddress sample_solved"
    "recoveredSigner sample_externals (at_time 2 1200) 6 3 True 100 [1] =
       Inr (avsSigner sample_solved)"
    "recoveredSigner sample_externals (at_time 2 1200) 5 1 True 100 [1] =
       Inr (avsSigner sample_solved)"
    by (simp_all add: sample_solved_eq submit_defs recoveredSigner_def)
  have h1: "3 \<noteq> puzzleIndex (playerStats sample_solved 6) \<or> \<not> active (puzzles sample_solved 3)"
    and h2: "1 \<noteq> puzzleIndex (playerStats sample_solved 5) \<or> \<not> active (puzzles sample_solved 1)"
    and i1: "3 \<noteq> puzzleIndex (playerStats sample_solved 6)"
    and i2: "\<not> 1 \<noteq> puzzleIndex (playerStats sample_solved 5)"
    and r: "allPlayers sample_solved = [5]" "isActivePlayer (playerStats sample_solved 6) = False"
    by (simp_all add: sample_solved_eq emptyStats_def emptyPuzzle_def)
  from submitResult_sequence_errors
         [OF h1, of sample_externals "at_time 2 1200" True 100 "[1]"]
       submitResult_sequence_errors
         [OF h2, of sample_externals "at_time 2 1200" True 100 "[1]"]
       g r
  show ?thesis
    by (simp only: i1 i2 if_True if_False) simp
qed

section \<open>The two windows\<close>

text \<open>
  C8: \<^verbatim>\<open>submitResult\<close> succeeds only while the game is ACTIVE and the block timestamp
  is at most \<open>gameStartTimestamp + gameDuration\<close>; \<^verbatim>\<open>finalizeRanks\<close> and
  \<^verbatim>\<open>claimNFT\<close> succeed only when the game is ENDED or the block timestamp is past
  that deadline (whatever the claimant's callback does). So in no storage (reachable or
  not) and at no block timestamp can a submission succeed and a finalisation or a claim
  succeed as well.
\<close>

theorem submission_and_ranking_windows_disjoint:
  "(submitResult x e player puzzleId correct timeRemaining signature s = Inr s1 \<longrightarrow>
      gameState s = ACTIVE \<and>
      unat (block_timestamp e) \<le> unat (gameStartTimestamp s) + unat (gameDuration s)) \<and>
   (finalizeRanks e' s = Inr s2 \<longrightarrow>
      gameState s = ENDED \<or>
      unat (block_timestamp e') > unat (gameStartTimestamp s) + unat (gameDuration s)) \<and>
   (claimNFT received e' s = Inr s3 \<longrightarrow>
      gameState s = ENDED \<or>
      unat (block_timestamp e') > unat (gameStartTimestamp s) + unat (gameDuration s)) \<and>
   (block_timestamp e' = block_timestamp e \<and>
    submitResult x e player puzzleId correct timeRemaining signature s = Inr s1 \<longrightarrow>
      (\<exists>err. finalizeRanks e' s = Inl err) \<and> (\<exists>err. claimNFT received e' s = Inl err))"
proof -
  let ?sub = "submitResult x e player puzzleId correct timeRemaining signature s = Inr s1"
  have 1: "gameState s = ACTIVE \<and>
      unat (block_timestamp e) \<le> unat (gameStartTimestamp s) + unat (gameDuration s)" if ?sub
    using onlyWhenActive_window [OF submitResult_Inr_D(1) [OF that]] by blast
  have 2: "gameState s = ENDED \<or>
      unat (block_timestamp e') > unat (gameStartTimestamp s) + unat (gameDuration s)"
    if "requireGameEnded e' s = Inr ()"
    using requireGameEnded_window [OF that] .
  have 3: "requireGameEnded e' s \<noteq> Inr ()" if "block_timestamp e' = block_timestamp e" ?sub
  proof
    assume "requireGameEnded e' s = Inr ()"
    from 2 [OF this] 1 [OF that(2)] that(1) show False by auto
  qed
  have 4: "(\<exists>err. finalizeRanks e' s = Inl err) \<and> (\<exists>err. claimNFT received e' s = Inl err)"
    if "block_timestamp e' = block_timestamp e" ?sub
  proof -
    from 3 [OF that] have "\<And>v. finalizeRanks e' s \<noteq> Inr v" "\<And>v. claimNFT received e' s \<noteq> Inr v"
      using finalizeRanks_Inr_D claimNFT_Inr_D by blast+
    then show ?thesis
      using not_Inr_is_Inl by blast
  qed
  from 1 2 4 finalizeRanks_Inr_D claimNFT_Inr_D show ?thesis
    by blast
qed

theorem submission_and_ranking_windows_disjoint_witness:
  "submitResult sample_externals (at_time 2 1100) 5 0 True 100 [1] sample_game =
     Inr sample_solved \<and>
   gameState sample_game = ACTIVE \<and>
   unat (block_timestamp (at_time 2 1100)) \<le>
     unat (gameStartTimestamp sample_game) + unat (gameDuration sample_game) \<and>
   (\<exists>err. finalizeRanks (at_time 5 1100) sample_game = Inl err) \<and>
   (\<exists>err. dispatch sample_externals (at_time 5 1100) (ClaimNFT (Receiver [] Accepted))
      sample_game = Inl err)"
proof -
  have h: "submitResult sample_externals (at_time 2 1100) 5 0 True 100 [1] sample_game =
     Inr sample_solved"
    by (simp only: sample_submit sample_solved_eq) (simp add: sample_game_eq)
  have t: "block_timestamp (at_time 5 1100) = block_timestamp (at_time 2 1100)"
    by (simp add: at_time_def)
  from submission_and_ranking_windows_disjoint
         [where x = sample_externals and e = "at_time 2 1100" and player = 5 and puzzleId = 0
            and correct = True and timeRemaining = 100 and signature = "[1]"
            and s = sample_game and ?s1.0 = sample_solved and e' = "at_time 5 1100"
            and received = Inr]
       h t
  show ?thesis by (simp only: dispatch_ClaimNFT_plain)
qed

text \<open>
  C9: with an empty roster every call of \<^verbatim>\<open>finalizeRanks\<close> reverts. Once the game is
  over (ENDED, or past the deadline) the error is the array-index panic of
  \<^verbatim>\<open>sortedPlayers[0]\<close>.
\<close>

theorem finalizeRanks_empty_roster_reverts:
  assumes "allPlayers s = []"
  shows "(\<exists>err. finalizeRanks e s = Inl err) \<and>
         (requireGameEnded e s = Inr () \<longrightarrow> finalizeRanks e s = Inl (Panic 0x32)) \<and>
         transact x e FinalizeRanks s = s"
proof -
  have p: "finalizeRanks e s = Inl (Panic 0x32)" if "requireGameEnded e s = Inr ()"
    using that assms by (simp add: finalizeRanks_def bindE_def sortOuter_Nil)
  have f: "\<exists>err. finalizeRanks e s = Inl err"
  proof (cases "requireGameEnded e s")
    case (Inl err)
    then show ?thesis by (simp add: finalizeRanks_def bindE_def)
  next
    case (Inr u)
    then show ?thesis using p by simp
  qed
  then have "transact x e FinalizeRanks s = s"
    by (auto simp: transact_def)
  with p f show ?thesis by blast
qed

theorem finalizeRanks_empty_roster_reverts_witness:
  "allPlayers sample_ended_empty = [] \<and>
   gameState sample_ended_empty = ENDED \<and>
   finalizeRanks (at_time 5 1200) sample_ended_empty = Inl (Panic 0x32) \<and>
   transact sample_externals (at_time 5 1200) FinalizeRanks sample_ended_empty = sample_ended_empty \<and>
   allPlayers sample_game = [] \<and>
   finalizeRanks (at_time 5 1301) sample_game = Inl (Panic 0x32)"
proof -
  have a: "allPlayers sample_ended_empty = []" "gameState sample_ended_empty = ENDED"
    "requireGameEnded (at_time 5 1200) sample_ended_empty = Inr ()"
    by (simp_all add: sample_ended_empty_def sample_game_eq at_time_def admin_defs
          requireGameEnded_def)
  have b: "allPlayers sample_game = []" "requireGameEnded (at_time 5 1301) sample_game = Inr ()"
    by (simp_all add: sample_game_eq at_time_def requireGameEnded_def require_def bindE_def
          checked_add_def)
  from finalizeRanks_empty_roster_reverts [OF a(1), of "at_time 5 1200" sample_externals]
       finalizeRanks_empty_roster_reverts [OF b(1), of "at_time 5 1301" sample_externals]
       a b
  show ?thesis by blast
qed

section \<open>The comparator and the exchange sort\<close>

lemma isBetter_iff:
  "isBetter s a b \<longleftrightarrow>
     score (playerStats s a) > score (playerStats s b) \<or>
     (score (playerStats s a) = score (playerStats s b) \<and>
      (puzzleIndex (playerStats s a) > puzzleIndex (playerStats s b) \<or>
       (puzzleIndex (playerStats s a) = puzzleIndex (playerStats s b) \<and>
        lastSolveTime (playerStats s a) < lastSolveTime (playerStats s b))))"
  by (auto simp: isBetter_def)

lemma isBetter_irrefl: "\<not> isBetter s a a"
  by (simp add: isBetter_iff)

lemma isBetter_trans: "isBetter s a b \<Longrightarrow> isBetter s b c \<Longrightarrow> isBetter s a c"
  unfolding isBetter_iff by (elim disjE conjE) auto

lemma isBetter_asym: "isBetter s a b \<Longrightarrow> \<not> isBetter s b a"
  using isBetter_trans isBetter_irrefl by blast

lemma areTied_iff: "areTied s a b \<longleftrightarrow> \<not> isBetter s a b \<and> \<not> isBetter s b a"
  unfolding isBetter_iff areTied_def by auto

lemma not_isBetter_trans:
  "\<not> isBetter s a b \<Longrightarrow> \<not> isBetter s b c \<Longrightarrow> \<not> isBetter s a c"
  unfolding isBetter_iff by (auto simp: not_less le_less)

lemma areTied_refl: "areTied s a a"
  by (simp add: areTied_def)

lemma areTied_sym: "areTied s a b \<Longrightarrow> areTied s b a"
  by (simp add: areTied_def)

lemma areTied_trans: "areTied s a b \<Longrightarrow> areTied s b c \<Longrightarrow> areTied s a c"
  by (simp add: areTied_def)

lemma sortInner_step:
  "j < length xs \<Longrightarrow>
   sortInner s i j xs =
     sortInner s i (j + 1)
       (if isBetter s (xs ! j) (xs ! i) then (xs[i := xs ! j])[j := xs ! i] else xs)"
  by (subst sortInner.simps) (simp add: Let_def)

lemma sortInner_done: "\<not> j < length xs \<Longrightarrow> sortInner s i j xs = xs"
  by (subst sortInner.simps) simp

lemma sortOuter_step:
  "i < length xs \<Longrightarrow> sortOuter s i xs = sortOuter s (i + 1) (sortInner s i (i + 1) xs)"
  by (subst sortOuter.simps) simp

lemma sortOuter_done: "\<not> i < length xs \<Longrightarrow> sortOuter s i xs = xs"
  by (subst sortOuter.simps) simp

lemma mset_sortInner: "i < length xs \<Longrightarrow> mset (sortInner s i j xs) = mset xs"
proof (induction s i j xs rule: sortInner.induct)
  case (1 s i j xs)
  show ?case
  proof (cases "j < length xs")
    case True
    let ?xs' = "if isBetter s (xs ! j) (xs ! i) then (xs[i := xs ! j])[j := xs ! i] else xs"
    have "mset ?xs' = mset xs"
      using True "1.prems" by (simp add: mset_swap)
    moreover have "mset (sortInner s i (j + 1) ?xs') = mset ?xs'"
      using "1.IH" [OF True, unfolded Let_def] "1.prems" by simp
    ultimately show ?thesis
      by (simp only: sortInner_step [OF True])
  next
    case False
    then show ?thesis by (simp add: sortInner_done)
  qed
qed

lemma sortInner_prefix:
  "i < j \<Longrightarrow> k < i \<Longrightarrow> sortInner s i j xs ! k = xs ! k"
proof (induction s i j xs rule: sortInner.induct)
  case (1 s i j xs)
  show ?case
  proof (cases "j < length xs")
    case True
    let ?xs' = "if isBetter s (xs ! j) (xs ! i) then (xs[i := xs ! j])[j := xs ! i] else xs"
    have "sortInner s i (j + 1) ?xs' ! k = ?xs' ! k"
      using "1.IH" [OF True, unfolded Let_def] "1.prems" by simp
    moreover have "?xs' ! k = xs ! k"
      using "1.prems" by simp
    ultimately show ?thesis
      by (simp only: sortInner_step [OF True])
  next
    case False
    then show ?thesis by (simp add: sortInner_done)
  qed
qed

lemma sortInner_best:
  "i < j \<Longrightarrow> i < length xs \<Longrightarrow>
   (\<forall>k. i < k \<and> k < j \<and> k < length xs \<longrightarrow> noWorse s (xs ! i) (xs ! k)) \<Longrightarrow>
   i < k \<Longrightarrow> k < length xs \<Longrightarrow>
   noWorse s (sortInner s i j xs ! i) (sortInner s i j xs ! k)"
proof (induction s i j xs rule: sortInner.induct)
  case (1 s i j xs)
  show ?case
  proof (cases "j < length xs")
    case True
    let ?xs' = "if isBetter s (xs ! j) (xs ! i) then (xs[i := xs ! j])[j := xs ! i] else xs"
    have len: "length ?xs' = length xs" by simp
    have inv: "\<forall>k. i < k \<and> k < j + 1 \<and> k < length ?xs' \<longrightarrow> noWorse s (?xs' ! i) (?xs' ! k)"
    proof (intro allI impI, elim conjE)
      fix m assume m: "i < m" "m < j + 1" "m < length ?xs'"
      show "noWorse s (?xs' ! i) (?xs' ! m)"
      proof (cases "isBetter s (xs ! j) (xs ! i)")
        case swap: True
        show ?thesis
        proof (cases "m = j")
          case True
          with swap "1.prems"(1,2) \<open>j < length xs\<close> show ?thesis
            by (simp add: noWorse_def isBetter_asym)
        next
          case False
          with m have mj: "m < j" by simp
          with m "1.prems"(3) len have "noWorse s (xs ! i) (xs ! m)" by simp
          then have "\<not> isBetter s (xs ! m) (xs ! j)"
            using swap isBetter_trans unfolding noWorse_def by blast
          with swap mj m "1.prems"(1,2) \<open>j < length xs\<close> show ?thesis
            by (simp add: noWorse_def)
        qed
      next
        case keep: False
        show ?thesis
        proof (cases "m = j")
          case True
          with keep show ?thesis by (simp add: noWorse_def)
        next
          case False
          with m have "m < j" by simp
          with m "1.prems"(3) keep show ?thesis by simp
        qed
      qed
    qed
    have "noWorse s (sortInner s i (j + 1) ?xs' ! i) (sortInner s i (j + 1) ?xs' ! k)"
      using "1.IH" [OF True, unfolded Let_def] "1.prems"(1,2,4,5) inv len by simp
    then show ?thesis
      by (simp only: sortInner_step [OF True])
  next
    case False
    with "1.prems" show ?thesis by (simp add: sortInner_done)
  qed
qed

lemma sortInner_suffix:
  "i < j \<Longrightarrow> i < length xs \<Longrightarrow> i \<le> b \<Longrightarrow> b < length xs \<Longrightarrow>
   \<exists>b'. i \<le> b' \<and> b' < length xs \<and> sortInner s i j xs ! b = xs ! b'"
proof (induction s i j xs rule: sortInner.induct)
  case (1 s i j xs)
  show ?case
  proof (cases "j < length xs")
    case True
    let ?xs' = "if isBetter s (xs ! j) (xs ! i) then (xs[i := xs ! j])[j := xs ! i] else xs"
    have len: "length ?xs' = length xs" by simp
    from "1.IH" [OF True, unfolded Let_def] "1.prems" len
    obtain c where c: "i \<le> c" "c < length xs" "sortInner s i (j + 1) ?xs' ! b = ?xs' ! c"
      by auto
    have "\<exists>b'. i \<le> b' \<and> b' < length xs \<and> ?xs' ! c = xs ! b'"
    proof (cases "isBetter s (xs ! j) (xs ! i)")
      case swap: True
      consider "c = i" | "c = j" | "c \<noteq> i" "c \<noteq> j" by blast
      then show ?thesis
      proof cases
        case 1
        with swap True "1.prems"(1,2) have "?xs' ! c = xs ! j" by simp
        with True "1.prems"(1) show ?thesis by (intro exI [of _ j]) simp
      next
        case 2
        with swap True "1.prems"(1,2) have "?xs' ! c = xs ! i" by simp
        with "1.prems"(2) show ?thesis by (intro exI [of _ i]) simp
      next
        case 3
        with swap have "?xs' ! c = xs ! c" by simp
        with c show ?thesis by (intro exI [of _ c]) simp
      qed
    next
      case False
      with c show ?thesis by (intro exI [of _ c]) simp
    qed
    with c(3) show ?thesis
      by (simp only: sortInner_step [OF True])
  next
    case False
    with "1.prems" show ?thesis by (auto simp: sortInner_done)
  qed
qed

lemma sortedUpTo_sortInner:
  assumes "sortedUpTo s i xs" "i < length xs"
  shows "sortedUpTo s (i + 1) (sortInner s i (i + 1) xs)"
  unfolding sortedUpTo_def
proof (intro allI impI, elim conjE)
  let ?ys = "sortInner s i (i + 1) xs"
  fix a b assume ab: "a < i + 1" "a < b" "b < length ?ys"
  then have b: "b < length xs" by (simp add: length_sortInner)
  show "noWorse s (?ys ! a) (?ys ! b)"
  proof (cases "a = i")
    case True
    have "\<forall>k. i < k \<and> k < i + 1 \<and> k < length xs \<longrightarrow> noWorse s (xs ! i) (xs ! k)"
      by auto
    from sortInner_best [OF _ assms(2) this, of b] ab b True show ?thesis
      by simp
  next
    case False
    with ab have a: "a < i" by simp
    then have ya: "?ys ! a = xs ! a"
      by (simp add: sortInner_prefix)
    show ?thesis
    proof (cases "b < i")
      case True
      then have "?ys ! b = xs ! b" by (simp add: sortInner_prefix)
      with ya assms(1) a ab(2) b show ?thesis
        by (simp add: sortedUpTo_def)
    next
      case False
      then have "i \<le> b" by simp
      from sortInner_suffix [OF _ assms(2) this b, of "i + 1" s]
      obtain b' where b': "i \<le> b'" "b' < length xs" "?ys ! b = xs ! b'"
        by auto
      with a assms(1) have "noWorse s (xs ! a) (xs ! b')"
        by (simp add: sortedUpTo_def)
      with ya b'(3) show ?thesis by simp
    qed
  qed
qed

lemma sortOuter_sorted:
  "sortedUpTo s i xs \<Longrightarrow> sortedUpTo s (length xs) (sortOuter s i xs)"
proof (induction s i xs rule: sortOuter.induct)
  case (1 s i xs)
  show ?case
  proof (cases "i < length xs")
    case True
    from "1.IH" [OF True sortedUpTo_sortInner [OF "1.prems" True]]
    show ?thesis
      by (simp add: sortOuter_step [OF True] length_sortInner)
  next
    case False
    with "1.prems" show ?thesis
      by (auto simp: sortOuter_done sortedUpTo_def)
  qed
qed

lemma mset_sortOuter: "mset (sortOuter s i xs) = mset xs"
proof (induction s i xs rule: sortOuter.induct)
  case (1 s i xs)
  show ?case
  proof (cases "i < length xs")
    case True
    with "1.IH" [OF True] show ?thesis
      by (simp add: sortOuter_step [OF True] mset_sortInner)
  next
    case False
    then show ?thesis by (simp add: sortOuter_done)
  qed
qed

lemma length_sortOuter: "length (sortOuter s i xs) = length xs"
  using mset_sortOuter [of s i xs] by (metis size_mset)

lemma set_sortOuter: "set (sortOuter s i xs) = set xs"
  using mset_sortOuter [of s i xs] by (metis set_mset_mset)

lemma sortedUpTo_length_iff: "sortedUpTo s (length xs) xs \<longleftrightarrow> sorted_wrt (noWorse s) xs"
  by (auto simp: sortedUpTo_def sorted_wrt_iff_nth_less)

lemma sorted_sortOuter: "sorted_wrt (noWorse s) (sortOuter s 0 xs)"
proof -
  have "sortedUpTo s 0 xs" by (simp add: sortedUpTo_def)
  from sortOuter_sorted [OF this] show ?thesis
    by (simp add: length_sortOuter flip: sortedUpTo_length_iff)
qed

section \<open>The rank loop\<close>

lemma assignRanks_step:
  "k < length sp \<Longrightarrow>
   assignRanks s sp k rank =
     assignRanks s sp (k + 1)
       (if areTied s (sp ! k) (sp ! (k - 1))
        then rank(sp ! k := rank (sp ! (k - 1)))
        else rank(sp ! k := of_nat (k + 1)))"
  by (subst assignRanks.simps) simp

lemma assignRanks_done: "\<not> k < length sp \<Longrightarrow> assignRanks s sp k rank = rank"
  by (subst assignRanks.simps) simp

lemma sorted_neighbours_tied:
  assumes "sorted_wrt (noWorse s) sp" "j \<le> k" "Suc k < length sp"
    and "areTied s (sp ! j) (sp ! Suc k)"
  shows "areTied s (sp ! Suc k) (sp ! k)" and "areTied s (sp ! j) (sp ! k)"
proof -
  from assms(1,3) have 1: "\<not> isBetter s (sp ! Suc k) (sp ! k)"
    by (simp add: sorted_wrt_iff_nth_less noWorse_def)
  have 2: "\<not> isBetter s (sp ! k) (sp ! j)"
  proof (cases "j = k")
    case True
    then show ?thesis by (simp add: isBetter_irrefl)
  next
    case False
    with assms(1,2,3) show ?thesis
      by (simp add: sorted_wrt_iff_nth_less noWorse_def)
  qed
  from assms(4) have "\<not> isBetter s (sp ! j) (sp ! Suc k)"
    by (simp add: areTied_iff)
  with 2 have "\<not> isBetter s (sp ! k) (sp ! Suc k)"
    by (rule not_isBetter_trans)
  with 1 show t: "areTied s (sp ! Suc k) (sp ! k)"
    by (simp add: areTied_iff)
  from areTied_trans [OF assms(4) t] show "areTied s (sp ! j) (sp ! k)" .
qed

lemma tied_same_competitionRank:
  "sorted_wrt (noWorse s) sp \<Longrightarrow> j \<le> k \<Longrightarrow> k < length sp \<Longrightarrow>
   areTied s (sp ! j) (sp ! k) \<Longrightarrow> competitionRank s sp j = competitionRank s sp k"
proof (induction k)
  case 0
  then show ?case by simp
next
  case (Suc k)
  show ?case
  proof (cases "j = Suc k")
    case True
    then show ?thesis by simp
  next
    case False
    with Suc.prems have jk: "j \<le> k" by simp
    from sorted_neighbours_tied [OF Suc.prems(1) jk Suc.prems(3,4)]
    have t: "areTied s (sp ! Suc k) (sp ! k)" "areTied s (sp ! j) (sp ! k)" .
    from Suc.IH [OF Suc.prems(1) jk _ t(2)] Suc.prems(3)
    have "competitionRank s sp j = competitionRank s sp k" by simp
    with t(1) show ?thesis by simp
  qed
qed

lemma assignRanks_other: "a \<notin> set sp \<Longrightarrow> assignRanks s sp k rank a = rank a"
proof (induction s sp k rank rule: assignRanks.induct)
  case (1 s sp k rank)
  show ?case
  proof (cases "k < length sp")
    case True
    with "1.prems" have ne: "sp ! k \<noteq> a" by (metis nth_mem)
    from "1.IH" [OF True "1.prems"] ne show ?thesis
      by (simp add: assignRanks_step [OF True])
  next
    case False
    then show ?thesis by (simp add: assignRanks_done)
  qed
qed

lemma assignRanks_competitionRank:
  "sorted_wrt (noWorse s) sp \<Longrightarrow> 0 < k \<Longrightarrow>
   (\<forall>j. j < k \<and> j < length sp \<longrightarrow> rank (sp ! j) = competitionRank s sp j) \<Longrightarrow>
   j < length sp \<Longrightarrow>
   assignRanks s sp k rank (sp ! j) = competitionRank s sp j"
proof (induction s sp k rank rule: assignRanks.induct)
  case (1 s sp k rank)
  show ?case
  proof (cases "k < length sp")
    case True
    let ?v = "if areTied s (sp ! k) (sp ! (k - 1)) then rank (sp ! (k - 1)) else of_nat (k + 1)"
    let ?rank' = "rank(sp ! k := ?v)"
    have upd: "(if areTied s (sp ! k) (sp ! (k - 1))
        then rank(sp ! k := rank (sp ! (k - 1)))
        else rank(sp ! k := of_nat (k + 1))) = ?rank'"
      by simp
    from "1.prems"(2) obtain k' where k': "k = Suc k'" by (cases k) auto
    with "1.prems"(3) True have "rank (sp ! k') = competitionRank s sp k'" by simp
    with k' have v: "?v = competitionRank s sp k" by simp
    have inv: "\<forall>m. m < k + 1 \<and> m < length sp \<longrightarrow> ?rank' (sp ! m) = competitionRank s sp m"
    proof (intro allI impI, elim conjE)
      fix m assume m: "m < k + 1" "m < length sp"
      show "?rank' (sp ! m) = competitionRank s sp m"
      proof (cases "sp ! m = sp ! k")
        case same: True
        from m have "m \<le> k" by simp
        from tied_same_competitionRank [OF "1.prems"(1) this True] same
        have "competitionRank s sp m = competitionRank s sp k"
          by (simp add: areTied_refl)
        with same v show ?thesis by simp
      next
        case False
        with m have "m < k" by (cases "m = k") auto
        with False "1.prems"(3) m(2) show ?thesis by simp
      qed
    qed
    have "assignRanks s sp (k + 1) ?rank' (sp ! j) = competitionRank s sp j"
    proof (rule "1.IH" [OF True "1.prems"(1), unfolded upd])
      show "0 < k + 1" by simp
      show "\<forall>j. j < k + 1 \<and> j < length sp \<longrightarrow> ?rank' (sp ! j) = competitionRank s sp j"
        by (rule inv)
      show "j < length sp" by (rule "1.prems"(4))
    qed
    then show ?thesis
      by (simp only: assignRanks_step [OF True] upd)
  next
    case False
    with "1.prems" show ?thesis by (simp add: assignRanks_done)
  qed
qed

section \<open>Final ranks\<close>

lemma finalizeRanks_Inr_iff:
  "finalizeRanks e s = Inr s' \<longleftrightarrow>
     requireGameEnded e s = Inr () \<and> allPlayers s \<noteq> [] \<and>
     s' = s\<lparr>finalRank :=
            assignRanks s (sortedRoster s) 1 ((finalRank s)(sortedRoster s ! 0 := 1))\<rparr>"
proof -
  have "length (sortOuter s 0 (allPlayers s)) = 0 \<longleftrightarrow> allPlayers s = []"
    by (simp add: length_sortOuter)
  then show ?thesis
    unfolding finalizeRanks_def sortedRoster_def
    by (auto simp: bindE_Inr_iff map_nth Let_def)
qed

lemma finalRank_after_finalizeRanks:
  assumes "finalizeRanks e s = Inr s'" "k < length (sortedRoster s)"
  shows "finalRank s' (sortedRoster s ! k) = competitionRank s (sortedRoster s) k"
proof -
  let ?sp = "sortedRoster s"
  from assms(1) have s': "finalRank s' = assignRanks s ?sp 1 ((finalRank s)(?sp ! 0 := 1))"
    by (simp add: finalizeRanks_Inr_iff)
  have sorted: "sorted_wrt (noWorse s) ?sp"
    by (simp add: sortedRoster_def sorted_sortOuter)
  have "assignRanks s ?sp 1 ((finalRank s)(?sp ! 0 := 1)) (?sp ! k) = competitionRank s ?sp k"
  proof (rule assignRanks_competitionRank [OF sorted _ _ assms(2)])
    show "0 < (1 :: nat)" by simp
    show "\<forall>j. j < 1 \<and> j < length ?sp \<longrightarrow>
        ((finalRank s)(?sp ! 0 := 1)) (?sp ! j) = competitionRank s ?sp j"
      by simp
  qed
  with s' show ?thesis by simp
qed

lemma finalRank_other_after_finalizeRanks:
  assumes "finalizeRanks e s = Inr s'" "a \<notin> set (allPlayers s)"
  shows "finalRank s' a = finalRank s a"
proof -
  let ?sp = "sortedRoster s"
  from assms(1) have s': "finalRank s' = assignRanks s ?sp 1 ((finalRank s)(?sp ! 0 := 1))"
    and ne: "allPlayers s \<noteq> []"
    by (simp_all add: finalizeRanks_Inr_iff)
  have set: "set ?sp = set (allPlayers s)"
    by (simp add: sortedRoster_def set_sortOuter)
  with ne have "?sp ! 0 \<in> set (allPlayers s)"
    by (metis length_greater_0_conv nth_mem set_empty)
  with assms(2) have "?sp ! 0 \<noteq> a" by auto
  with assms(2) set s' show ?thesis
    by (simp add: assignRanks_other)
qed

lemma isBetter_cong: "playerStats s1 = playerStats s \<Longrightarrow> isBetter s1 = isBetter s"
  by (intro ext) (simp add: isBetter_def)

lemma areTied_cong: "playerStats s1 = playerStats s \<Longrightarrow> areTied s1 = areTied s"
  by (intro ext) (simp add: areTied_def)

lemma sortInner_cong: "playerStats s1 = playerStats s \<Longrightarrow> sortInner s1 i j xs = sortInner s i j xs"
proof (induction s i j xs rule: sortInner.induct)
  case (1 s i j xs)
  show ?case
  proof (cases "j < length xs")
    case True
    from "1.IH" [OF True "1.prems", unfolded Let_def] isBetter_cong [OF "1.prems"]
    show ?thesis
      by (simp only: sortInner_step [OF True])
  next
    case False
    then show ?thesis by (simp add: sortInner_done)
  qed
qed

lemma sortOuter_cong: "playerStats s1 = playerStats s \<Longrightarrow> sortOuter s1 i xs = sortOuter s i xs"
proof (induction s i xs rule: sortOuter.induct)
  case (1 s i xs)
  show ?case
  proof (cases "i < length xs")
    case True
    from "1.IH" [OF True "1.prems"] sortInner_cong [OF "1.prems"]
    show ?thesis
      by (simp only: sortOuter_step [OF True])
  next
    case False
    then show ?thesis by (simp add: sortOuter_done)
  qed
qed

lemma assignRanks_cong:
  "playerStats s1 = playerStats s \<Longrightarrow> assignRanks s1 sp k rank = assignRanks s sp k rank"
proof (induction s sp k rank rule: assignRanks.induct)
  case (1 s sp k rank)
  show ?case
  proof (cases "k < length sp")
    case True
    from "1.IH" [OF True "1.prems"] areTied_cong [OF "1.prems"]
    show ?thesis
      by (simp only: assignRanks_step [OF True])
  next
    case False
    then show ?thesis by (simp add: assignRanks_done)
  qed
qed

lemma requireGameEnded_later:
  assumes "requireGameEnded e s = Inr ()" "block_timestamp e \<le> block_timestamp e'"
    and "gameState s' = gameState s" "gameStartTimestamp s' = gameStartTimestamp s"
    and "gameDuration s' = gameDuration s"
  shows "requireGameEnded e' s' = Inr ()"
  using assms unfolding requireGameEnded_Inr_iff by auto

lemma sample_three_finalize:
  "\<exists>s'. finalizeRanks (at_time 9 1250) sample_three = Inr s'"
proof -
  have "requireGameEnded (at_time 9 1250) sample_three = Inr ()"
    "allPlayers sample_three \<noteq> []"
    by (simp_all add: sample_three_eq requireGameEnded_def)
  then show ?thesis
    by (simp add: finalizeRanks_Inr_iff)
qed

text \<open>
  C5: after a successful \<^verbatim>\<open>finalizeRanks\<close> the sorted roster is a permutation of the
  roster in which no player is better (higher score, then higher puzzle index, then
  earlier last solve time) than a player before it; its first player has rank 1, and the
  player at a later position has the rank of the player before it when the two are tied
  on score, puzzle index and last solve time, and its 1-based position otherwise (as a
  \<^verbatim>\<open>uint256\<close>; on a roster without duplicates, as every reachable one is, the rank read
  as a number is the position plus one). Hence two players of the roster that are tied
  have the same final rank. Rank numbers can have gaps: in the sample game the ranks are
  1, 1 and 3.
\<close>

theorem finalizeRanks_competition_ranking:
  assumes "finalizeRanks e s = Inr s'"
  shows "mset (sortedRoster s) = mset (allPlayers s) \<and>
         sorted_wrt (noWorse s) (sortedRoster s) \<and>
         finalRank s' (sortedRoster s ! 0) = 1 \<and>
         (\<forall>k. 0 < k \<and> k < length (sortedRoster s) \<longrightarrow>
            finalRank s' (sortedRoster s ! k) =
              (if areTied s (sortedRoster s ! k) (sortedRoster s ! (k - 1))
               then finalRank s' (sortedRoster s ! (k - 1))
               else of_nat (k + 1))) \<and>
         (\<forall>a \<in> set (allPlayers s). \<forall>b \<in> set (allPlayers s).
            areTied s a b \<longrightarrow> finalRank s' a = finalRank s' b) \<and>
         (distinct (allPlayers s) \<longrightarrow>
            (\<forall>k. 0 < k \<and> k < length (sortedRoster s) \<and>
                 \<not> areTied s (sortedRoster s ! k) (sortedRoster s ! (k - 1)) \<longrightarrow>
               unat (finalRank s' (sortedRoster s ! k)) = k + 1))"
proof -
  let ?sp = "sortedRoster s"
  note rank = finalRank_after_finalizeRanks [OF assms]
  have perm: "mset ?sp = mset (allPlayers s)"
    by (simp add: sortedRoster_def mset_sortOuter)
  have sorted: "sorted_wrt (noWorse s) ?sp"
    by (simp add: sortedRoster_def sorted_sortOuter)
  from assms have "allPlayers s \<noteq> []"
    by (simp add: finalizeRanks_Inr_iff)
  with perm have "0 < length ?sp"
    by (metis length_greater_0_conv mset_zero_iff)
  from rank [OF this] have first: "finalRank s' (?sp ! 0) = 1"
    by simp
  have later: "finalRank s' (?sp ! k) =
      (if areTied s (?sp ! k) (?sp ! (k - 1)) then finalRank s' (?sp ! (k - 1)) else of_nat (k + 1))"
    if "0 < k" "k < length ?sp" for k
  proof -
    from that(1) obtain k' where k': "k = Suc k'" by (cases k) auto
    with that(2) have "k' < length ?sp" by simp
    from rank [OF this] rank [OF that(2)] k' show ?thesis by simp
  qed
  have ties: "finalRank s' a = finalRank s' b"
    if "a \<in> set (allPlayers s)" "b \<in> set (allPlayers s)" "areTied s a b" for a b
  proof -
    from perm have "set ?sp = set (allPlayers s)"
      by (metis set_mset_mset)
    with that(1,2) obtain i j where ij: "i < length ?sp" "?sp ! i = a" "j < length ?sp" "?sp ! j = b"
      by (metis in_set_conv_nth)
    have "competitionRank s ?sp i = competitionRank s ?sp j"
    proof (cases "i \<le> j")
      case True
      from tied_same_competitionRank [OF sorted True ij(3)] ij that(3) show ?thesis by simp
    next
      case False
      then have "j \<le> i" by simp
      from tied_same_competitionRank [OF sorted this ij(1)] ij areTied_sym [OF that(3)]
      show ?thesis by simp
    qed
    with rank [OF ij(1)] rank [OF ij(3)] ij show ?thesis by simp
  qed
  have number: "unat (finalRank s' (?sp ! k)) = k + 1"
    if "distinct (allPlayers s)" "0 < k" "k < length ?sp"
       "\<not> areTied s (?sp ! k) (?sp ! (k - 1))" for k
  proof -
    from perm have "length ?sp = length (allPlayers s)"
      by (metis size_mset)
    with roster_length [OF that(1)] that(3) have "k + 1 < 2 ^ LENGTH(256)"
      by simp
    then have "unat (of_nat (k + 1) :: uint256) = k + 1"
      by (simp only: unat_of_nat mod_less)
    with later [OF that(2,3)] that(4) show ?thesis
      by simp
  qed
  from perm sorted first later ties number show ?thesis by blast
qed

theorem finalizeRanks_competition_ranking_witness:
  "\<exists>s'. finalizeRanks (at_time 9 1250) sample_three = Inr s' \<and>
        allPlayers sample_three = [7, 5, 6] \<and>
        sortedRoster sample_three = [5, 6, 7] \<and>
        areTied sample_three 6 5 \<and>
        \<not> areTied sample_three 7 6 \<and>
        finalRank s' 5 = 1 \<and> finalRank s' 6 = 1 \<and> finalRank s' 7 = 3"
proof -
  from sample_three_finalize obtain s' where
    h: "finalizeRanks (at_time 9 1250) sample_three = Inr s'" by blast
  have roster: "allPlayers sample_three = [7, 5, 6]"
    by (simp add: sample_three_eq)
  have t1: "areTied sample_three 6 5" and t2: "\<not> areTied sample_three 7 6"
    by (simp_all add: sample_three_eq areTied_def emptyStats_def)
  note c = finalizeRanks_competition_ranking [OF h, unfolded sortedRoster_sample_three]
  from c have r5: "finalRank s' 5 = 1" by simp
  note later = c [THEN conjunct2, THEN conjunct2, THEN conjunct2, THEN conjunct1, rule_format]
  from later [of 1] t1 r5 have r6: "finalRank s' 6 = 1" by simp
  from later [of 2] t2 have r7: "finalRank s' 7 = 3" by simp
  from h roster sortedRoster_sample_three t1 t2 r5 r6 r7 show ?thesis
    by blast
qed

text \<open>
  C6: when \<^verbatim>\<open>finalizeRanks\<close> has succeeded, a second call on the resulting storage, in
  the same or a later block, succeeds as well (nothing guards against it) and yields the
  same rank mapping; the storage does not change at all.
\<close>

theorem finalizeRanks_twice_same_ranks:
  assumes "finalizeRanks e s = Inr s1" "block_timestamp e \<le> block_timestamp e'"
  shows "\<exists>s2. finalizeRanks e' s1 = Inr s2 \<and> finalRank s2 = finalRank s1 \<and> s2 = s1"
proof -
  let ?sp = "sortedRoster s"
  from assms(1) have s1: "s1 = s\<lparr>finalRank :=
        assignRanks s ?sp 1 ((finalRank s)(?sp ! 0 := 1))\<rparr>"
    and ne: "allPlayers s \<noteq> []" and gate: "requireGameEnded e s = Inr ()"
    by (simp_all add: finalizeRanks_Inr_iff)
  from s1 have same: "playerStats s1 = playerStats s" "allPlayers s1 = allPlayers s"
    "gameState s1 = gameState s" "gameStartTimestamp s1 = gameStartTimestamp s"
    "gameDuration s1 = gameDuration s"
    by simp_all
  have sp1: "sortedRoster s1 = ?sp"
    by (simp add: sortedRoster_def same sortOuter_cong [OF same(1)])
  have sorted: "sorted_wrt (noWorse s) ?sp"
    by (simp add: sortedRoster_def sorted_sortOuter)
  have set: "set ?sp = set (allPlayers s)"
    by (simp add: sortedRoster_def set_sortOuter)
  with ne have first: "?sp ! 0 \<in> set ?sp"
    by (metis length_greater_0_conv nth_mem set_empty)
  have "assignRanks s ?sp 1 ((finalRank s1)(?sp ! 0 := 1)) a = finalRank s1 a" for a
  proof (cases "a \<in> set ?sp")
    case True
    then obtain k where k: "k < length ?sp" "?sp ! k = a"
      by (metis in_set_conv_nth)
    have "assignRanks s ?sp 1 ((finalRank s1)(?sp ! 0 := 1)) (?sp ! k) = competitionRank s ?sp k"
    proof (rule assignRanks_competitionRank [OF sorted _ _ k(1)])
      show "0 < (1 :: nat)" by simp
      show "\<forall>j. j < 1 \<and> j < length ?sp \<longrightarrow>
          ((finalRank s1)(?sp ! 0 := 1)) (?sp ! j) = competitionRank s ?sp j"
        by simp
    qed
    with finalRank_after_finalizeRanks [OF assms(1) k(1)] k(2) show ?thesis
      by simp
  next
    case False
    with first have "?sp ! 0 \<noteq> a" by auto
    with False show ?thesis
      by (simp add: assignRanks_other)
  qed
  then have "assignRanks s ?sp 1 ((finalRank s1)(?sp ! 0 := 1)) = finalRank s1"
    by (rule ext)
  then have "s1\<lparr>finalRank := assignRanks s1 (sortedRoster s1) 1
       ((finalRank s1)(sortedRoster s1 ! 0 := 1))\<rparr> = s1"
    by (simp add: sp1 assignRanks_cong [OF same(1)])
  moreover have "requireGameEnded e' s1 = Inr ()"
    using requireGameEnded_later [OF gate assms(2) same(3,4,5)] .
  ultimately have "finalizeRanks e' s1 = Inr s1"
    using ne same(2) by (simp add: finalizeRanks_Inr_iff)
  then show ?thesis by simp
qed

theorem finalizeRanks_twice_same_ranks_witness:
  "\<exists>s1 s2. finalizeRanks (at_time 9 1250) sample_three = Inr s1 \<and>
           finalizeRanks (at_time 8 1400) s1 = Inr s2 \<and>
           finalRank s2 = finalRank s1"
proof -
  from sample_three_finalize obtain s1 where
    h: "finalizeRanks (at_time 9 1250) sample_three = Inr s1" by blast
  have t: "block_timestamp (at_time 9 1250) \<le> block_timestamp (at_time 8 1400)"
    by (simp add: at_time_def)
  from finalizeRanks_twice_same_ranks [OF h t] h show ?thesis
    by blast
qed

section \<open>What each function does when it succeeds\<close>

lemma transferOwnership_Inr_iff:
  "transferOwnership e a s = Inr s' \<longleftrightarrow>
     owner s = msg_sender e \<and> a \<noteq> 0 \<and> s' = s\<lparr>owner := a\<rparr>"
  by (auto simp: transferOwnership_def onlyOwner_def bindE_Inr_iff require_Inr_iff)

lemma renounceOwnership_Inr_iff:
  "renounceOwnership e s = Inr s' \<longleftrightarrow> owner s = msg_sender e \<and> s' = s\<lparr>owner := 0\<rparr>"
  by (auto simp: renounceOwnership_def onlyOwner_def bindE_Inr_iff require_Inr_iff)

lemma setPuzzleCreator_Inr_iff:
  "setPuzzleCreator e a b s = Inr s' \<longleftrightarrow>
     owner s = msg_sender e \<and> s' = s\<lparr>puzzleCreators := (puzzleCreators s)(a := b)\<rparr>"
  by (auto simp: setPuzzleCreator_def onlyOwner_def bindE_Inr_iff require_Inr_iff)

lemma setAvsAddress_Inr_iff:
  "setAvsAddress e a s = Inr s' \<longleftrightarrow> owner s = msg_sender e \<and> s' = s\<lparr>avsAddress := a\<rparr>"
  by (auto simp: setAvsAddress_def onlyOwner_def bindE_Inr_iff require_Inr_iff)

lemma setAvsSigner_Inr_iff:
  "setAvsSigner e a s = Inr s' \<longleftrightarrow> owner s = msg_sender e \<and> s' = s\<lparr>avsSigner := a\<rparr>"
  by (auto simp: setAvsSigner_def onlyOwner_def bindE_Inr_iff require_Inr_iff)

lemma startGame_Inr_iff:
  "startGame e d s = Inr s' \<longleftrightarrow>
     owner s = msg_sender e \<and> gameState s = NOT_STARTED \<and>
     s' = s\<lparr>gameDuration := d, gameStartTimestamp := block_timestamp e, gameState := ACTIVE\<rparr>"
  by (cases "gameState s")
     (auto simp: startGame_def onlyOwner_def bindE_Inr_iff require_Inr_iff)

lemma endGame_Inr_iff:
  "endGame e s = Inr s' \<longleftrightarrow>
     owner s = msg_sender e \<and> gameState s = ACTIVE \<and> s' = s\<lparr>gameState := ENDED\<rparr>"
  by (auto simp: endGame_def onlyOwner_def bindE_Inr_iff require_Inr_iff)

lemma setPuzzleHash_Inr_iff:
  "setPuzzleHash e i h p s = Inr s' \<longleftrightarrow>
     (puzzleCreators s (msg_sender e) \<or> msg_sender e = owner s) \<and>
     (puzzleCount s \<le> i \<longrightarrow> unat i + unat (1 :: uint256) < 2 ^ 256) \<and>
     s' = s\<lparr>puzzles := (puzzles s)(i := \<lparr>puzzleHash = h, basePoints = p, active = True\<rparr>),
            puzzleCount := (if puzzleCount s \<le> i then i + 1 else puzzleCount s)\<rparr>"
  by (auto simp: setPuzzleHash_def onlyPuzzleCreator_def bindE_Inr_iff require_Inr_iff
        checked_add_Inr_iff Let_def)

lemma safeMint_Inr_iff:
  "safeMint received to tokenId s = Inr s' \<longleftrightarrow>
     to \<noteq> 0 \<and> erc721_owners s tokenId = 0 \<and>
     received (s\<lparr>erc721_balances := (erc721_balances s)(to := erc721_balances s to + 1),
                   erc721_owners := (erc721_owners s)(tokenId := to)\<rparr>) = Inr s'"
  by (auto simp: safeMint_def bindE_Inr_iff require_Inr_iff Let_def)

lemma transferFrom_Inr_iff:
  "transferFrom holder to tokenId s = Inr s' \<longleftrightarrow>
     erc721_owners s tokenId \<noteq> 0 \<and> erc721_owners s tokenId = holder \<and> to \<noteq> 0 \<and>
     s' = s\<lparr>erc721_balances :=
              ((erc721_balances s)(holder := erc721_balances s holder - 1))
                (to := ((erc721_balances s)(holder := erc721_balances s holder - 1)) to + 1),
            erc721_owners := (erc721_owners s)(tokenId := to)\<rparr>"
  by (auto simp: transferFrom_def bindE_Inr_iff require_Inr_iff Let_def)

lemma claimNFT_Inr_iff:
  "claimNFT received e s = Inr s' \<longleftrightarrow>
     requireGameEnded e s = Inr () \<and>
     finalRank s (msg_sender e) > 0 \<and>
     \<not> claimedNFT (playerStats s (msg_sender e)) \<and>
     unat (tokenIds s) + unat (1 :: uint256) < 2 ^ 256 \<and>
     msg_sender e \<noteq> 0 \<and>
     erc721_owners s (tokenIds s + 1) = 0 \<and>
     received (claimWrites e s) = Inr s'"
  by (auto simp: claimNFT_def claimWrites_def safeMint_Inr_iff bindE_Inr_iff require_Inr_iff
        checked_add_Inr_iff Let_def)

lemma checkOnERC721Received_Inr_iff:
  "checkOnERC721Received x e (Receiver cs ending) s = Inr s' \<longleftrightarrow>
     ending = Accepted \<and> s' = reenter x e cs s"
  by (cases ending) auto

lemma dispatch_ClaimNFT_Inr_iff:
  "dispatch x e (ClaimNFT (Receiver cs ending)) s = Inr s' \<longleftrightarrow>
     requireGameEnded e s = Inr () \<and>
     finalRank s (msg_sender e) > 0 \<and>
     \<not> claimedNFT (playerStats s (msg_sender e)) \<and>
     unat (tokenIds s) + unat (1 :: uint256) < 2 ^ 256 \<and>
     msg_sender e \<noteq> 0 \<and>
     erc721_owners s (tokenIds s + 1) = 0 \<and>
     ending = Accepted \<and>
     s' = reenter x e cs (claimWrites e s)"
  by (simp only: dispatch.simps claimNFT_Inr_iff checkOnERC721Received_Inr_iff)

lemma reenter_run: "reenter x e cs s = run x (nested e cs) s"
  by (induction cs arbitrary: s) (auto simp: nested_def transact_def)

lemma submitResult_frame:
  assumes "submitResult x e player puzzleId correct timeRemaining signature s = Inr s'"
  shows "gameState s = ACTIVE" "gameState s' = ACTIVE"
    "gameStartTimestamp s' = gameStartTimestamp s" "gameDuration s' = gameDuration s"
    "finalRank s' = finalRank s" "erc721_owners s' = erc721_owners s" "tokenIds s' = tokenIds s"
    "allPlayers s' = (if isActivePlayer (playerStats s player) then allPlayers s
                      else allPlayers s @ [player])"
    "isActivePlayer (playerStats s' player)"
    "\<And>p. isActivePlayer (playerStats s p) \<Longrightarrow> isActivePlayer (playerStats s' p)"
    "\<And>p. claimedNFT (playerStats s' p) = claimedNFT (playerStats s p)"
  using assms
  by (cases correct; auto simp: submitResult_Inr_iff markActive_def onlyWhenActive_Inr_iff)+

lemma run_append: "run x (cs @ cs') s = run x cs' (run x cs s)"
  by (induction cs arbitrary: s) auto

section \<open>Callbacks\<close>

text \<open>
  A claim first writes (\<open>claimWrites\<close>) and then runs the claimant's callback on what it
  wrote. So a property of the storage that every plain call keeps is kept by every call,
  whatever the callbacks do.
\<close>

lemma claimNFT_plain_Inr_iff:
  "dispatch x e (ClaimNFT (Receiver [] Accepted)) s = Inr s' \<longleftrightarrow>
     requireGameEnded e s = Inr () \<and>
     finalRank s (msg_sender e) > 0 \<and>
     \<not> claimedNFT (playerStats s (msg_sender e)) \<and>
     unat (tokenIds s) + unat (1 :: uint256) < 2 ^ 256 \<and>
     msg_sender e \<noteq> 0 \<and>
     erc721_owners s (tokenIds s + 1) = 0 \<and>
     s' = claimWrites e s"
  by (simp only: dispatch_ClaimNFT_Inr_iff reenter.simps) simp

lemma claim_writes_first:
  assumes "dispatch x e (ClaimNFT r) s = Inr s'"
  shows "dispatch x e (ClaimNFT (Receiver [] Accepted)) s = Inr (claimWrites e s)"
    and "checkOnERC721Received x e r (claimWrites e s) = Inr s'"
proof -
  obtain cs ending where r: "r = Receiver cs ending" by (cases r)
  from assms have *:
    "requireGameEnded e s = Inr () \<and>
     finalRank s (msg_sender e) > 0 \<and>
     \<not> claimedNFT (playerStats s (msg_sender e)) \<and>
     unat (tokenIds s) + unat (1 :: uint256) < 2 ^ 256 \<and>
     msg_sender e \<noteq> 0 \<and>
     erc721_owners s (tokenIds s + 1) = 0 \<and>
     ending = Accepted \<and>
     s' = reenter x e cs (claimWrites e s)"
    unfolding r dispatch_ClaimNFT_Inr_iff .
  show "dispatch x e (ClaimNFT (Receiver [] Accepted)) s = Inr (claimWrites e s)"
    unfolding claimNFT_plain_Inr_iff using * by blast
  show "checkOnERC721Received x e r (claimWrites e s) = Inr s'"
    unfolding r checkOnERC721Received_Inr_iff using * by blast
qed

lemma dispatch_preserves_aux:
  "(\<forall>e c s s'. plain c \<longrightarrow> P s \<longrightarrow> dispatch x e c s = Inr s' \<longrightarrow> P s') \<Longrightarrow>
     P s \<Longrightarrow> dispatch x e c s = Inr s' \<Longrightarrow> P s'"
  "(\<forall>e c s s'. plain c \<longrightarrow> P s \<longrightarrow> dispatch x e c s = Inr s' \<longrightarrow> P s') \<Longrightarrow>
     P s \<Longrightarrow> checkOnERC721Received x e r s = Inr s' \<Longrightarrow> P s'"
  "(\<forall>e c s s'. plain c \<longrightarrow> P s \<longrightarrow> dispatch x e c s = Inr s' \<longrightarrow> P s') \<Longrightarrow>
     P s \<Longrightarrow> P (reenter x e cs s)"
proof (induction x e c s and x e r s and x e cs s arbitrary: s' and s' and
    rule: dispatch_checkOnERC721Received_reenter.induct)
  case (11 x e r s)
  from claim_writes_first [OF "11.prems"(3)] "11.prems"(1,2)
  have "P (claimWrites e s)"
    and "checkOnERC721Received x e r (claimWrites e s) = Inr s'"
    by (metis plain.simps(1))+
  with "11.IH" [OF "11.prems"(1)] show ?case by blast
next
  case (13 x e cs ending s)
  from "13.prems"(3) have "s' = reenter x e cs s"
    by (simp only: checkOnERC721Received_Inr_iff)
  with "13.IH" [OF "13.prems"(1,2)] show ?case by simp
next
  case (14 x e s)
  then show ?case by simp
next
  case (15 x e a c cs s)
  show ?case
  proof (cases "dispatch x (e\<lparr>msg_sender := a\<rparr>) c s")
    case (Inl err)
    with "15.IH"(2) [OF "15.prems"(1)] "15.prems"(2) show ?thesis by simp
  next
    case (Inr s1)
    from "15.IH"(1) [OF "15.prems"(1,2) Inr] have "P s1" .
    with "15.IH"(2) [OF "15.prems"(1)] Inr show ?thesis by simp
  qed
qed (metis plain.simps)+

lemma dispatch_preserves:
  assumes "\<And>e c s s'. plain c \<Longrightarrow> P s \<Longrightarrow> dispatch x e c s = Inr s' \<Longrightarrow> P s'"
    and "P s" "dispatch x e c s = Inr s'"
  shows "P s'"
  using dispatch_preserves_aux(1) [of P x s e c s'] assms by blast

section \<open>Puzzles stay active\<close>

lemma submitResult_puzzles:
  "submitResult x e player puzzleId correct timeRemaining signature s = Inr s' \<Longrightarrow>
   puzzles s' = puzzles s"
  by (cases correct) (auto simp: submitResult_Inr_iff markActive_def)

lemma puzzles_plain:
  assumes "plain c" "dispatch x e c s = Inr s'"
  shows "(setsPuzzle x e c s i \<longrightarrow> active (puzzles s' i)) \<and>
         (\<not> setsPuzzle x e c s i \<longrightarrow> puzzles s' i = puzzles s i)"
proof (cases c)
  case (SetPuzzleHash j h p)
  with assms(2) have ok: "setPuzzleHash e j h p s = Inr s'" by simp
  then have "\<not> isl (setPuzzleHash e j h p s)" by simp
  moreover from ok have
    "puzzles s' = (puzzles s)(j := \<lparr>puzzleHash = h, basePoints = p, active = True\<rparr>)"
    by (auto simp: setPuzzleHash_Inr_iff)
  ultimately show ?thesis
    by (simp add: SetPuzzleHash)
next
  case (SubmitResult p j cr t sg)
  with assms(2) submitResult_puzzles show ?thesis by auto
next
  case (ClaimNFT r)
  with assms(1) have r: "r = Receiver [] Accepted" by simp
  from assms(2) have "s' = claimWrites e s"
    unfolding ClaimNFT r claimNFT_plain_Inr_iff by blast
  then show ?thesis
    by (simp add: ClaimNFT r claimWrites_def)
qed (use assms in \<open>auto simp: transferOwnership_Inr_iff renounceOwnership_Inr_iff
      setPuzzleCreator_Inr_iff setAvsAddress_Inr_iff setAvsSigner_Inr_iff startGame_Inr_iff
      endGame_Inr_iff finalizeRanks_Inr_iff transferFrom_Inr_iff\<close>)

lemma active_dispatch:
  assumes "active (puzzles s i)" "dispatch x e c s = Inr s'"
  shows "active (puzzles s' i)"
proof (rule dispatch_preserves [where P = "\<lambda>s. active (puzzles s i)", OF _ assms])
  fix e c s s'
  assume "plain c" "active (puzzles s i)" "dispatch x e c s = Inr s'"
  with puzzles_plain [of c x e s s' i] show "active (puzzles s' i)"
    by auto
qed

lemma active_reenter: "active (puzzles s i) \<Longrightarrow> active (puzzles (reenter x e cs s) i)"
proof (induction cs arbitrary: s)
  case Nil
  then show ?case by simp
next
  case (Cons ac cs)
  obtain a c where ac: "ac = (a, c)" by (cases ac)
  show ?case
  proof (cases "dispatch x (e\<lparr>msg_sender := a\<rparr>) c s")
    case (Inl err)
    with Cons show ?thesis by (simp add: ac)
  next
    case (Inr s1)
    from active_dispatch [OF Cons.prems Inr] Cons.IH Inr show ?thesis by (simp add: ac)
  qed
qed

lemma puzzles_frame_aux:
  "dispatch x e c s = Inr s' \<Longrightarrow>
     (setsPuzzle x e c s i \<longrightarrow> active (puzzles s' i)) \<and>
     (\<not> setsPuzzle x e c s i \<longrightarrow> puzzles s' i = puzzles s i)"
  "checkOnERC721Received x e r s = Inr s' \<Longrightarrow>
     (case r of Receiver cs ending \<Rightarrow>
        (callbackSetsPuzzle x e cs s i \<longrightarrow> active (puzzles s' i)) \<and>
        (\<not> callbackSetsPuzzle x e cs s i \<longrightarrow> puzzles s' i = puzzles s i))"
  "(callbackSetsPuzzle x e cs s i \<longrightarrow> active (puzzles (reenter x e cs s) i)) \<and>
   (\<not> callbackSetsPuzzle x e cs s i \<longrightarrow> puzzles (reenter x e cs s) i = puzzles s i)"
proof (induction x e c s and x e r s and x e cs s arbitrary: s' and s' and
    rule: dispatch_checkOnERC721Received_reenter.induct)
  case (11 x e r s)
  obtain cs ending where r: "r = Receiver cs ending" by (cases r)
  note w = claim_writes_first [OF "11.prems"]
  from "11.prems" have ok: "\<not> isl (dispatch x e (ClaimNFT (Receiver cs ending)) s)"
    by (simp add: r)
  have same: "puzzles (claimWrites e s) = puzzles s"
    by (simp add: claimWrites_def)
  from "11.IH" [OF w(2)] ok same show ?case
    by (simp add: r)
next
  case (13 x e cs ending s)
  from "13.prems" have "s' = reenter x e cs s"
    by (simp only: checkOnERC721Received_Inr_iff)
  with "13.IH" show ?case by simp
next
  case (14 x e s)
  then show ?case by simp
next
  case (15 x e a c cs s)
  show ?case
  proof (cases "dispatch x (e\<lparr>msg_sender := a\<rparr>) c s")
    case (Inl err)
    then have no: "\<not> setsPuzzle x (e\<lparr>msg_sender := a\<rparr>) c s i"
    proof (cases c)
      case (ClaimNFT r)
      with Inl show ?thesis by (cases r) simp
    qed simp_all
    from Inl have "transact x (e\<lparr>msg_sender := a\<rparr>) c s = s"
      by (simp add: transact_def)
    with "15.IH"(2) Inl no show ?thesis by simp
  next
    case (Inr s1)
    then have tx: "transact x (e\<lparr>msg_sender := a\<rparr>) c s = s1"
      by (simp add: transact_def)
    note first = "15.IH"(1) [OF Inr]
    from "15.IH"(2) Inr have rest:
      "(callbackSetsPuzzle x e cs s1 i \<longrightarrow> active (puzzles (reenter x e cs s1) i)) \<and>
       (\<not> callbackSetsPuzzle x e cs s1 i \<longrightarrow> puzzles (reenter x e cs s1) i = puzzles s1 i)"
      by simp
    from first rest active_reenter [of s1 i x e cs] Inr tx show ?thesis
      by auto
  qed
qed (erule puzzles_plain [rotated], simp)+

lemma setsPuzzle_succeeds: "setsPuzzle x e c s i \<Longrightarrow> \<exists>s'. dispatch x e c s = Inr s'"
proof (cases c)
  case (SetPuzzleHash j h p)
  assume "setsPuzzle x e c s i"
  with SetPuzzleHash show ?thesis
    by (cases "setPuzzleHash e j h p s") auto
next
  case (ClaimNFT r)
  obtain cs ending where r: "r = Receiver cs ending" by (cases r)
  assume "setsPuzzle x e c s i"
  then have "\<not> isl (dispatch x e c s)"
    by (simp add: ClaimNFT r)
  then show ?thesis
    by (cases "dispatch x e c s") auto
qed simp_all

lemma puzzles_transact:
  "puzzles (transact x e c s) i = puzzles s i \<or>
   (setsPuzzle x e c s i \<and> active (puzzles (transact x e c s) i))"
proof (cases "dispatch x e c s")
  case (Inl err)
  then show ?thesis by (simp add: transact_def)
next
  case (Inr s')
  with puzzles_frame_aux(1) [OF Inr, of i] show ?thesis
    by (auto simp: transact_def)
qed

lemma setsPuzzle_active:
  assumes "setsPuzzle x e c s i"
  shows "active (puzzles (transact x e c s) i)"
proof -
  from setsPuzzle_succeeds [OF assms] obtain s' where ok: "dispatch x e c s = Inr s'" ..
  with puzzles_frame_aux(1) [OF ok, of i] assms show ?thesis
    by (simp add: transact_def)
qed

lemma active_transact: "active (puzzles s i) \<Longrightarrow> active (puzzles (transact x e c s) i)"
  using puzzles_transact [of x e c s i] by auto

lemma active_run: "active (puzzles s i) \<Longrightarrow> active (puzzles (run x cs s) i)"
  by (induction cs arbitrary: s) (auto simp: active_transact)

lemma active_run_iff:
  "active (puzzles (run x cs s) i) \<longleftrightarrow> active (puzzles s i) \<or> everSet x cs s i"
proof (induction cs arbitrary: s)
  case Nil
  then show ?case by simp
next
  case (Cons ec cs)
  obtain e c where ec: "ec = (e, c)" by (cases ec)
  have "active (puzzles (transact x e c s) i) \<longleftrightarrow> active (puzzles s i) \<or> setsPuzzle x e c s i"
    using puzzles_transact [of x e c s i] setsPuzzle_active [of x e c s i] by auto
  with Cons.IH [of "transact x e c s"] show ?case
    by (auto simp: ec)
qed

lemma submitResult_not_active_D:
  assumes "submitResult x e player puzzleId correct timeRemaining signature s =
     Inl (Revert ''Puzzle not active'')"
  shows "\<not> active (puzzles s puzzleId)"
proof
  assume act: "active (puzzles s puzzleId)"
  have ne: "throwError err \<noteq> Revert ''Puzzle not active''" for err
    by (cases err) simp_all
  from assms act ne show False
    unfolding submitResult_def onlyWhenActive_def recover_def
    by (auto simp: bindE_Inl_iff require_Inl_iff require_Inr_iff checked_add_Inl_iff Let_def
          split: sum.splits if_splits)
qed

lemma run_sample_history:
  "run sample_externals sample_history (constructor (at_time 1 1000) ''uri'') = sample_solved"
  by (simp add: sample_history_def run_append sample_solved_def flip: sample_game_def)

text \<open>
  C10: no transaction turns an active puzzle inactive, along one call or along any
  history. A transaction that changes a puzzle entry sets that puzzle (a
  \<^verbatim>\<open>setPuzzleHash\<close> for it that succeeds, called directly or from the callback of a
  claim), and it leaves the puzzle active. So in the storage a history of transactions
  leaves from the deployment a puzzle is active exactly when some call of the history has
  set it, and \<^verbatim>\<open>submitResult\<close> can revert with \<^verbatim>\<open>Puzzle not active\<close> only for a puzzle
  that no call of the history has set.
\<close>

theorem puzzles_never_deactivated:
  "(active (puzzles s i) \<longrightarrow> active (puzzles (transact x e c s) i)) \<and>
   (active (puzzles s i) \<longrightarrow> active (puzzles (run x cs s) i)) \<and>
   (puzzles (transact x e c s) i \<noteq> puzzles s i \<longrightarrow>
      setsPuzzle x e c s i \<and> active (puzzles (transact x e c s) i)) \<and>
   (active (puzzles (run x hist (constructor e0 uri)) i) \<longleftrightarrow>
      everSet x hist (constructor e0 uri) i) \<and>
   (submitResult x e' player i correct timeRemaining signature (run x hist (constructor e0 uri)) =
      Inl (Revert ''Puzzle not active'') \<longrightarrow>
    \<not> everSet x hist (constructor e0 uri) i)"
proof -
  have init: "\<not> active (puzzles (constructor e0 uri) i)"
    by (simp add: constructor_def emptyPuzzle_def)
  have past: "active (puzzles (run x hist (constructor e0 uri)) i) \<longleftrightarrow>
      everSet x hist (constructor e0 uri) i"
    using init by (simp add: active_run_iff)
  from active_transact active_run puzzles_transact [of x e c s i] past
    submitResult_not_active_D [of x e' player i correct timeRemaining signature
      "run x hist (constructor e0 uri)"]
  show ?thesis by blast
qed

theorem puzzles_never_deactivated_witness:
  "active (puzzles sample_game 0) \<and>
   active (puzzles (transact sample_externals (at_time 1 1150) (SetPuzzleHash 0 99 5) sample_game) 0) \<and>
   active (puzzles (run sample_externals [(at_time 2 1100, SubmitResult 5 0 True 100 [1])]
     sample_game) 0) \<and>
   everSet sample_externals sample_history (constructor (at_time 1 1000) ''uri'') 0 \<and>
   submitResult sample_externals (at_time 2 1200) 5 1 True 100 [1]
     (run sample_externals sample_history (constructor (at_time 1 1000) ''uri'')) =
       Inl (Revert ''Puzzle not active'') \<and>
   \<not> everSet sample_externals sample_history (constructor (at_time 1 1000) ''uri'') 1"
proof -
  have a: "active (puzzles sample_game 0)"
    by (simp add: sample_game_eq)
  have b: "active (puzzles (run sample_externals sample_history
      (constructor (at_time 1 1000) ''uri'')) 0)"
    by (simp add: run_sample_history sample_solved_eq)
  have c: "submitResult sample_externals (at_time 2 1200) 5 1 True 100 [1]
     (run sample_externals sample_history (constructor (at_time 1 1000) ''uri'')) =
       Inl (Revert ''Puzzle not active'')"
    by (simp only: run_sample_history) (simp add: sample_solved_eq submit_defs)
  from puzzles_never_deactivated
         [where s = sample_game and i = 0 and x = sample_externals and e = "at_time 1 1150"
            and c = "SetPuzzleHash 0 99 5"
            and cs = "[(at_time 2 1100, SubmitResult 5 0 True 100 [1])]"
            and hist = sample_history and ?e0.0 = "at_time 1 1000" and uri = "''uri''"]
       puzzles_never_deactivated
         [where i = 1 and x = sample_externals
            and hist = sample_history and ?e0.0 = "at_time 1 1000" and uri = "''uri''"
            and e' = "at_time 2 1200" and player = 5 and correct = True
            and timeRemaining = 100 and signature = "[1]"]
       a b c
  show ?thesis by blast
qed


section \<open>Claiming once\<close>

lemma rosterOk_constructor: "rosterOk (constructor e uri)"
  by (simp add: rosterOk_def constructor_def)

lemma competitionRank_nonzero:
  "length sp < 2 ^ 256 \<Longrightarrow> k < length sp \<Longrightarrow> competitionRank s sp k \<noteq> 0"
proof (induction k)
  case 0
  then show ?case by simp
next
  case (Suc k)
  show ?case
  proof (cases "areTied s (sp ! Suc k) (sp ! k)")
    case True
    with Suc show ?thesis by simp
  next
    case False
    from Suc.prems have "Suc k + 1 < 2 ^ LENGTH(256)" by simp
    then have "(of_nat (Suc k + 1) :: uint256) \<noteq> 0"
      by (intro of_nat_neq_0) simp_all
    with False show ?thesis by simp
  qed
qed

lemma finalizeRanks_frame:
  assumes "finalizeRanks e s = Inr s'"
  shows "gameState s' = gameState s" "gameStartTimestamp s' = gameStartTimestamp s"
    "gameDuration s' = gameDuration s" "allPlayers s' = allPlayers s"
    "playerStats s' = playerStats s" "erc721_owners s' = erc721_owners s"
    "tokenIds s' = tokenIds s" "allPlayers s \<noteq> []"
  using assms by (simp_all add: finalizeRanks_Inr_iff)

lemma finalRank_nonzero_after_finalizeRanks:
  assumes "finalizeRanks e s = Inr s'" "distinct (allPlayers s)" "p \<in> set (allPlayers s)"
  shows "finalRank s' p \<noteq> 0"
proof -
  let ?sp = "sortedRoster s"
  have len: "length ?sp < 2 ^ 256"
    using roster_length [OF assms(2)] by (simp add: sortedRoster_def length_sortOuter)
  from assms(3) obtain k where k: "k < length ?sp" "?sp ! k = p"
    by (metis in_set_conv_nth set_sortOuter sortedRoster_def)
  from finalRank_after_finalizeRanks [OF assms(1) k(1)] competitionRank_nonzero [OF len k(1)] k(2)
  show ?thesis by simp
qed

lemma rosterOk_plain:
  assumes "plain c" "rosterOk s" "dispatch x e c s = Inr s'"
  shows "rosterOk s'"
proof (cases c)
  case (SubmitResult player puzzleId correct timeRemaining signature)
  with assms(3) have ok:
    "submitResult x e player puzzleId correct timeRemaining signature s = Inr s'" by simp
  note f = submitResult_frame [OF ok]
  from assms(2) f show ?thesis
    unfolding rosterOk_def by (auto split: if_splits)
next
  case FinalizeRanks
  with assms(3) have ok: "finalizeRanks e s = Inr s'" by simp
  note f = finalizeRanks_frame [OF ok]
  from assms(2) f finalRank_other_after_finalizeRanks [OF ok] show ?thesis
    unfolding rosterOk_def by metis
next
  case (ClaimNFT r)
  with assms(1) have r: "r = Receiver [] Accepted" by simp
  from assms(3) have room: "unat (tokenIds s) + unat (1 :: uint256) < 2 ^ 256"
    and s': "s' = claimWrites e s"
    unfolding ClaimNFT r claimNFT_plain_Inr_iff by blast+
  from room have lt: "tokenIds s < tokenIds s + 1"
    by (simp add: word_less_nat_alt unat_checked_sum)
  from assms(2) lt show ?thesis
    unfolding rosterOk_def s' claimWrites_def
    by (auto dest: order.strict_implies_order order.trans)
qed (use assms in \<open>auto simp: rosterOk_def transferOwnership_Inr_iff renounceOwnership_Inr_iff
      setPuzzleCreator_Inr_iff setAvsAddress_Inr_iff setAvsSigner_Inr_iff startGame_Inr_iff
      endGame_Inr_iff setPuzzleHash_Inr_iff transferFrom_Inr_iff\<close>)

lemma rosterOk_dispatch:
  assumes "rosterOk s" "dispatch x e c s = Inr s'"
  shows "rosterOk s'"
  using dispatch_preserves [where P = rosterOk, OF rosterOk_plain assms] .

lemma rosterOk_transact: "rosterOk s \<Longrightarrow> rosterOk (transact x e c s)"
  by (cases "dispatch x e c s") (auto simp: transact_def rosterOk_dispatch)

lemma rosterOk_run: "rosterOk s \<Longrightarrow> rosterOk (run x cs s)"
  by (induction cs arbitrary: s) (auto simp: rosterOk_transact)

lemma claimedFor_started:
  assumes "rosterOk s" "claimedFor p t s"
  shows "gameState s \<noteq> NOT_STARTED" "p \<in> set (allPlayers s)"
proof -
  from assms show "p \<in> set (allPlayers s)"
    by (simp add: rosterOk_def claimedFor_def)
  with assms(1) show "gameState s \<noteq> NOT_STARTED"
    by (auto simp: rosterOk_def)
qed

lemma claimedFor_later: "claimedFor p t s \<Longrightarrow> t \<le> t' \<Longrightarrow> claimedFor p t' s"
  by (auto simp: claimedFor_def)

lemma claimedFor_plain:
  assumes "plain c" "rosterOk s" "claimedFor p t s" "dispatch x e c s = Inr s'"
  shows "claimedFor p t s'"
proof (cases c)
  case (StartGame d)
  with assms(4) claimedFor_started(1) [OF assms(2,3)] show ?thesis
    by (simp add: startGame_Inr_iff)
next
  case (SubmitResult player puzzleId correct timeRemaining signature)
  with assms(4) have ok:
    "submitResult x e player puzzleId correct timeRemaining signature s = Inr s'" by simp
  note f = submitResult_frame [OF ok]
  from assms(3) f(1-5,11) show ?thesis
    by (simp add: claimedFor_def)
next
  case FinalizeRanks
  with assms(4) have ok: "finalizeRanks e s = Inr s'" by simp
  note f = finalizeRanks_frame [OF ok]
  from assms(2) have "distinct (allPlayers s)"
    by (simp add: rosterOk_def)
  from finalRank_nonzero_after_finalizeRanks [OF ok this claimedFor_started(2) [OF assms(2,3)]]
    assms(3) f
  show ?thesis by (simp add: claimedFor_def)
next
  case (ClaimNFT r)
  with assms(1) have r: "r = Receiver [] Accepted" by simp
  from assms(4) have "s' = claimWrites e s"
    unfolding ClaimNFT r claimNFT_plain_Inr_iff by blast
  with assms(3) show ?thesis
    by (auto simp: claimedFor_def claimWrites_def)
qed (use assms in \<open>auto simp: claimedFor_def transferOwnership_Inr_iff renounceOwnership_Inr_iff
      setPuzzleCreator_Inr_iff setAvsAddress_Inr_iff setAvsSigner_Inr_iff
      endGame_Inr_iff setPuzzleHash_Inr_iff transferFrom_Inr_iff\<close>)

lemma claimedFor_kept_plain:
  assumes "plain c" "rosterOk s \<and> claimedFor p t s" "dispatch x e c s = Inr s'"
  shows "rosterOk s' \<and> claimedFor p t s'"
  using assms rosterOk_plain claimedFor_plain by blast

lemma claimedFor_dispatch:
  assumes "rosterOk s" "claimedFor p t s" "dispatch x e c s = Inr s'"
  shows "claimedFor p t s'"
proof -
  from assms(1,2) have "rosterOk s \<and> claimedFor p t s" ..
  from dispatch_preserves
         [where P = "\<lambda>s. rosterOk s \<and> claimedFor p t s", OF claimedFor_kept_plain this assms(3)]
  show ?thesis ..
qed

lemma claimedFor_callback:
  assumes "rosterOk s" "claimedFor p t s" "checkOnERC721Received x e r s = Inr s'"
  shows "rosterOk s'" "claimedFor p t s'"
proof -
  have step: "\<forall>e c s s'. plain c \<longrightarrow> rosterOk s \<and> claimedFor p t s \<longrightarrow>
      dispatch x e c s = Inr s' \<longrightarrow> rosterOk s' \<and> claimedFor p t s'"
    using claimedFor_kept_plain by blast
  from assms(1,2) have "rosterOk s \<and> claimedFor p t s" ..
  from dispatch_preserves_aux(2)
         [where P = "\<lambda>s. rosterOk s \<and> claimedFor p t s", OF step this assms(3)]
  show "rosterOk s'" "claimedFor p t s'" by blast+
qed

lemma claimedFor_transact:
  "rosterOk s \<Longrightarrow> claimedFor p t s \<Longrightarrow> claimedFor p t (transact x e c s)"
  by (cases "dispatch x e c s") (auto simp: transact_def claimedFor_dispatch)

lemma claimedFor_run:
  "rosterOk s \<Longrightarrow> claimedFor p t s \<Longrightarrow> chronological t (cs @ [(e', c')]) \<Longrightarrow>
   claimedFor p (block_timestamp e') (run x cs s)"
proof (induction cs arbitrary: s t)
  case Nil
  then show ?case by (auto intro: claimedFor_later)
next
  case (Cons ec cs)
  obtain e c where ec: "ec = (e, c)" by (cases ec)
  from Cons.prems(3) have t: "t \<le> block_timestamp e"
    and rest: "chronological (block_timestamp e) (cs @ [(e', c')])"
    by (simp_all add: ec)
  from claimedFor_later [OF claimedFor_transact [OF Cons.prems(1,2)] t]
  have "claimedFor p (block_timestamp e) (transact x e c s)" .
  from Cons.IH [OF rosterOk_transact [OF Cons.prems(1)] this rest] show ?case
    by (simp add: ec)
qed

lemma claimNFT_already_claimed:
  assumes "claimedFor (msg_sender e) t s" "t \<le> block_timestamp e"
  shows "dispatch x e (ClaimNFT r) s = Inl (Revert ''Already claimed NFT'')"
proof -
  from claimedFor_later [OF assms] have c: "claimedFor (msg_sender e) (block_timestamp e) s" .
  then have "requireGameEnded e s = Inr ()"
    by (auto simp: claimedFor_def requireGameEnded_Inr_iff)
  moreover from c have "finalRank s (msg_sender e) > 0" "claimedNFT (playerStats s (msg_sender e))"
    by (simp_all add: claimedFor_def word_neq_0_conv)
  ultimately show ?thesis
    by (simp add: claimNFT_def bindE_def require_def)
qed

lemma claimedFor_claimWrites:
  assumes "dispatch x e (ClaimNFT r) s = Inr s'"
  shows "claimedFor (msg_sender e) (block_timestamp e) (claimWrites e s)"
proof -
  from claim_writes_first(1) [OF assms] have
    "requireGameEnded e s = Inr ()" "finalRank s (msg_sender e) > 0"
    unfolding claimNFT_plain_Inr_iff by blast+
  then show ?thesis
    by (auto simp: claimedFor_def claimWrites_def requireGameEnded_Inr_iff word_neq_0_conv)
qed

lemma mintedBelow_plain:
  assumes "plain c" "mintedBelow i s" "dispatch x e c s = Inr s'"
  shows "mintedBelow i s'"
proof (cases c)
  case (SubmitResult player puzzleId correct timeRemaining signature)
  with assms(3) have ok:
    "submitResult x e player puzzleId correct timeRemaining signature s = Inr s'" by simp
  from assms(2) submitResult_frame(6,7) [OF ok] show ?thesis
    by (simp add: mintedBelow_def)
next
  case FinalizeRanks
  with assms(3) have ok: "finalizeRanks e s = Inr s'" by simp
  from assms(2) finalizeRanks_frame(6,7) [OF ok] show ?thesis
    by (simp add: mintedBelow_def)
next
  case (ClaimNFT r)
  with assms(1) have r: "r = Receiver [] Accepted" by simp
  from assms(3) have room: "unat (tokenIds s) + unat (1 :: uint256) < 2 ^ 256"
    and to: "msg_sender e \<noteq> 0"
    and s': "s' = claimWrites e s"
    unfolding ClaimNFT r claimNFT_plain_Inr_iff by blast+
  from room have lt: "tokenIds s < tokenIds s + 1"
    by (simp add: word_less_nat_alt unat_checked_sum)
  from assms(2) lt to show ?thesis
    unfolding mintedBelow_def s' claimWrites_def
    by (auto dest: order.strict_implies_order order.trans)
qed (use assms in \<open>auto simp: mintedBelow_def transferOwnership_Inr_iff renounceOwnership_Inr_iff
      setPuzzleCreator_Inr_iff setAvsAddress_Inr_iff setAvsSigner_Inr_iff startGame_Inr_iff
      endGame_Inr_iff setPuzzleHash_Inr_iff transferFrom_Inr_iff\<close>)

lemma mintedBelow_callback:
  assumes "mintedBelow i s" "checkOnERC721Received x e r s = Inr s'"
  shows "mintedBelow i s'"
proof -
  have step: "\<forall>e c s s'. plain c \<longrightarrow> mintedBelow i s \<longrightarrow>
      dispatch x e c s = Inr s' \<longrightarrow> mintedBelow i s'"
    using mintedBelow_plain by blast
  from dispatch_preserves_aux(2) [where P = "mintedBelow i", OF step assms] show ?thesis .
qed

lemma chronological_nested:
  "chronological (block_timestamp e) (nested e cs @ rest) =
   chronological (block_timestamp e) rest"
  by (induction cs) (auto simp: nested_def)

lemma sample_ranked_history:
  "sample_ranked = run sample_externals sample_ranked_history (constructor (at_time 1 1000) ''uri'')"
  by (simp add: sample_ranked_history_def run_append sample_ranked_def sample_three_def
        sample_game_def)

lemma sample_ranked_finalized:
  "finalizeRanks (at_time 9 1250) sample_three = Inr sample_ranked"
  using sample_three_finalize by (auto simp: sample_ranked_def transact_def)

lemma sample_ranked_fields:
  "gameState sample_ranked = ENDED" "tokenIds sample_ranked = 0"
  "erc721_owners sample_ranked = (\<lambda>_. 0)"
  "claimedNFT (playerStats sample_ranked 5) = False"
  "claimedNFT (playerStats sample_ranked 6) = False"
  using finalizeRanks_frame [OF sample_ranked_finalized]
  by (simp_all add: sample_three_eq)

lemma sample_ranked_rank: "finalRank sample_ranked 5 = 1" "finalRank sample_ranked 6 = 1"
proof -
  from finalRank_after_finalizeRanks [OF sample_ranked_finalized, of 0]
  show "finalRank sample_ranked 5 = 1"
    by (simp add: sortedRoster_sample_three)
  have "areTied sample_three 6 5"
    by (simp add: sample_three_eq areTied_def emptyStats_def)
  with finalRank_after_finalizeRanks [OF sample_ranked_finalized, of 1]
  show "finalRank sample_ranked 6 = 1"
    by (simp add: sortedRoster_sample_three)
qed

lemma sample_claim:
  "\<exists>s'. dispatch sample_externals (at_time 5 1300) (ClaimNFT sample_receiver) sample_ranked = Inr s' \<and>
        erc721_owners s' 1 = 8 \<and> erc721_owners s' 2 = 6 \<and> tokenIds s' = 2"
  unfolding sample_receiver_def dispatch_ClaimNFT_Inr_iff
  by (simp add: requireGameEnded_def sample_ranked_fields sample_ranked_rank at_time_def
        claimWrites_def transferFrom_def claimNFT_def safeMint_def bindE_def require_def
        checked_add_def Let_def)

text \<open>
  C7: in a storage that a history of transactions leaves from the deployment, a
  successful \<^verbatim>\<open>claimNFT\<close> needs the game ENDED or the deadline passed, a final rank
  above 0 for the caller and a caller who has not claimed. Before it calls the claimant it
  has marked the caller as having claimed, raised \<^verbatim>\<open>_tokenIds\<close> by one (without
  wrap-around) and minted to the caller the token \<^verbatim>\<open>_tokenIds + 1\<close>, which did not exist
  and is strictly greater than every token minted before; the claim's result is what the
  claimant's callback makes of that storage. Whatever the callback does (move the token,
  let other players claim), afterwards the caller is still marked, the token still exists
  and \<^verbatim>\<open>_tokenIds\<close> is at least its identifier, so the identifier is never used again.
  A \<^verbatim>\<open>claimNFT\<close> of the same caller from inside the callback reverts with
  \<^verbatim>\<open>Already claimed NFT\<close>, and so does, whatever transactions follow (with block
  timestamps that do not decrease), every later \<^verbatim>\<open>claimNFT\<close> of the same caller: the
  claim succeeds at most once.
\<close>

theorem claimNFT_at_most_once:
  assumes "dispatch x e (ClaimNFT r) s = Inr s'" and "s = run x hist (constructor e0 uri)"
  shows "(gameState s = ENDED \<or>
          unat (block_timestamp e) > unat (gameStartTimestamp s) + unat (gameDuration s)) \<and>
         finalRank s (msg_sender e) > 0 \<and>
         \<not> claimedNFT (playerStats s (msg_sender e)) \<and>
         claimedNFT (playerStats (claimWrites e s) (msg_sender e)) \<and>
         claimedNFT (playerStats s' (msg_sender e)) \<and>
         unat (tokenIds s + 1) = unat (tokenIds s) + 1 \<and>
         erc721_owners s (tokenIds s + 1) = 0 \<and>
         (\<forall>i. erc721_owners s i \<noteq> 0 \<longrightarrow> i < tokenIds s + 1) \<and>
         tokenIds (claimWrites e s) = tokenIds s + 1 \<and>
         erc721_owners (claimWrites e s) (tokenIds s + 1) = msg_sender e \<and>
         checkOnERC721Received x e r (claimWrites e s) = Inr s' \<and>
         erc721_owners s' (tokenIds s + 1) \<noteq> 0 \<and>
         tokenIds s + 1 \<le> tokenIds s' \<and>
         (r = Receiver (pre @ (msg_sender e, ClaimNFT r') # post) ending \<longrightarrow>
            dispatch x e (ClaimNFT r') (reenter x e pre (claimWrites e s)) =
              Inl (Revert ''Already claimed NFT'')) \<and>
         (msg_sender e' = msg_sender e \<and>
          chronological (block_timestamp e) (cs @ [(e', ClaimNFT r'')]) \<longrightarrow>
            dispatch x e' (ClaimNFT r'') (run x cs s') = Inl (Revert ''Already claimed NFT''))"
proof -
  let ?w = "claimWrites e s"
  have inv: "rosterOk s"
    unfolding assms(2) by (rule rosterOk_run [OF rosterOk_constructor])
  note plain = claim_writes_first(1) [OF assms(1)]
  note hook = claim_writes_first(2) [OF assms(1)]
  from plain have gate: "requireGameEnded e s = Inr ()"
    and rank: "finalRank s (msg_sender e) > 0"
    and fresh: "\<not> claimedNFT (playerStats s (msg_sender e))"
    and room: "unat (tokenIds s) + unat (1 :: uint256) < 2 ^ 256"
    and to: "msg_sender e \<noteq> 0"
    and unminted: "erc721_owners s (tokenIds s + 1) = 0"
    unfolding claimNFT_plain_Inr_iff by blast+
  have inv_w: "rosterOk ?w"
    by (rule rosterOk_dispatch [OF inv plain])
  have claimed_w: "claimedFor (msg_sender e) (block_timestamp e) ?w"
    by (rule claimedFor_claimWrites [OF assms(1)])
  note inv' = claimedFor_callback(1) [OF inv_w claimed_w hook]
  note claimed' = claimedFor_callback(2) [OF inv_w claimed_w hook]
  from unat_checked_sum [OF room] have next_id: "unat (tokenIds s + 1) = unat (tokenIds s) + 1"
    by simp
  then have lt: "tokenIds s < tokenIds s + 1"
    by (simp add: word_less_nat_alt)
  have older: "i < tokenIds s + 1" if "erc721_owners s i \<noteq> 0" for i
  proof -
    from inv that have "i \<le> tokenIds s" by (simp add: rosterOk_def)
    with lt show ?thesis by simp
  qed
  have id_w: "tokenIds ?w = tokenIds s + 1"
    and owner_w: "erc721_owners ?w (tokenIds s + 1) = msg_sender e"
    and flag_w: "claimedNFT (playerStats ?w (msg_sender e))"
    by (simp_all add: claimWrites_def)
  from owner_w id_w to have "mintedBelow (tokenIds s + 1) ?w"
    by (simp add: mintedBelow_def)
  from mintedBelow_callback [OF this hook]
  have exists': "erc721_owners s' (tokenIds s + 1) \<noteq> 0" and above': "tokenIds s + 1 \<le> tokenIds s'"
    by (simp_all add: mintedBelow_def)
  from claimed' have flag': "claimedNFT (playerStats s' (msg_sender e))"
    by (simp add: claimedFor_def)
  have inside: "dispatch x e (ClaimNFT r') (reenter x e pre ?w) =
      Inl (Revert ''Already claimed NFT'')"
  proof -
    have "chronological (block_timestamp e) (nested e pre @ [(e, ClaimNFT r')])"
      by (simp add: chronological_nested)
    from claimedFor_run [OF inv_w claimed_w this]
    have "claimedFor (msg_sender e) (block_timestamp e) (reenter x e pre ?w)"
      by (simp add: reenter_run)
    from claimNFT_already_claimed [OF this] show ?thesis by simp
  qed
  have again: "dispatch x e' (ClaimNFT r'') (run x cs s') = Inl (Revert ''Already claimed NFT'')"
    if "msg_sender e' = msg_sender e" "chronological (block_timestamp e) (cs @ [(e', ClaimNFT r'')])"
  proof -
    from claimedFor_run [OF inv' claimed' that(2)] that(1)
    have "claimedFor (msg_sender e') (block_timestamp e') (run x cs s')" by simp
    from claimNFT_already_claimed [OF this] show ?thesis by simp
  qed
  from requireGameEnded_window [OF gate] rank fresh flag_w flag' next_id unminted older id_w
    owner_w hook exists' above' inside again
  show ?thesis by blast
qed

theorem claimNFT_at_most_once_witness:
  "\<exists>s'. dispatch sample_externals (at_time 5 1300) (ClaimNFT sample_receiver) sample_ranked =
          Inr s' \<and>
        sample_ranked =
          run sample_externals sample_ranked_history (constructor (at_time 1 1000) ''uri'') \<and>
        gameState sample_ranked = ENDED \<and>
        finalRank sample_ranked 5 = 1 \<and>
        claimedNFT (playerStats sample_ranked 5) = False \<and>
        claimedNFT (playerStats s' 5) \<and>
        tokenIds sample_ranked = 0 \<and>
        erc721_owners (claimWrites (at_time 5 1300) sample_ranked) 1 = 5 \<and>
        erc721_owners s' 1 = 8 \<and>
        erc721_owners s' 2 = 6 \<and>
        tokenIds s' = 2 \<and>
        dispatch sample_externals (at_time 5 1300) (ClaimNFT (Receiver [] Accepted))
          (reenter sample_externals (at_time 5 1300)
             [(5, TransferFrom 5 8 1), (6, ClaimNFT (Receiver [] Accepted))]
             (claimWrites (at_time 5 1300) sample_ranked)) =
            Inl (Revert ''Already claimed NFT'') \<and>
        dispatch sample_externals (at_time 5 1400) (ClaimNFT (Receiver [] Accepted))
          (run sample_externals [(at_time 6 1350, ClaimNFT (Receiver [] Accepted))] s') =
            Inl (Revert ''Already claimed NFT'')"
proof -
  from sample_claim obtain s' where
    h: "dispatch sample_externals (at_time 5 1300) (ClaimNFT sample_receiver) sample_ranked = Inr s'"
    and after: "erc721_owners s' 1 = 8" "erc721_owners s' 2 = 6" "tokenIds s' = 2"
    by blast
  have c: "msg_sender (at_time 5 1400) = msg_sender (at_time 5 1300)"
    "chronological (block_timestamp (at_time 5 1300))
       ([(at_time 6 1350, ClaimNFT (Receiver [] Accepted))] @
        [(at_time 5 1400, ClaimNFT (Receiver [] Accepted))])"
    "msg_sender (at_time 5 1300) = 5"
    "sample_receiver =
       Receiver ([(5, TransferFrom 5 8 1), (6, ClaimNFT (Receiver [] Accepted))] @
                 (msg_sender (at_time 5 1300), ClaimNFT (Receiver [] Accepted)) # []) Accepted"
    by (simp_all add: at_time_def sample_receiver_def)
  from claimNFT_at_most_once
         [OF h sample_ranked_history, where e' = "at_time 5 1400"
            and cs = "[(at_time 6 1350, ClaimNFT (Receiver [] Accepted))]"
            and r'' = "Receiver [] Accepted" and r' = "Receiver [] Accepted"
            and pre = "[(5, TransferFrom 5 8 1), (6, ClaimNFT (Receiver [] Accepted))]"
            and post = "[]" and ending = Accepted]
       c h after sample_ranked_history sample_ranked_fields sample_ranked_rank
  show ?thesis
    by (intro exI [of _ s']) (simp add: claimWrites_def)
qed

end
